theory Spec2Isabelle
  imports Complex_Main "HOL-Library.Word" "HOL-Library.Log_Nat"
begin

section \<open>Data model\<close>

text \<open>
  A JavaScript string is a sequence of UTF-16 code units. A comparison unit is itself a
  string (one code point, one word or one line), so a unit sequence is a list of strings.
\<close>

type_synonym jsstring = "16 word list"

text \<open>The \<open>type\<close> field of a \<open>LevenshteinOperation\<close>: 'replace' | 'delete' | 'insert'.\<close>

datatype op_type = Replace | Delete | Insert

text \<open>
  \<open>LevenshteinOperation\<close> of levenshtein.ts; its field \<open>type\<close> is \<open>op_type\<close> here.
  The optional fields \<open>oldChar\<close> and \<open>newChar\<close> are \<open>None\<close> when the property is
  absent (undefined). A position is an index into the first unit sequence. The timeout
  of the options is a number of milliseconds, taken as an integer.
\<close>

record LevenshteinOperation =
  op_type :: op_type
  position :: nat
  oldChar :: "jsstring option"
  newChar :: "jsstring option"

record LevenshteinResult =
  editDistance :: nat
  operations :: "LevenshteinOperation list"

record LevenshteinOptions =
  timeout :: "int option"

text \<open>
  Errors thrown by the code: the timeout of the alignment loop (its message says that
  the Levenshtein computation timed out), and the wrapper that \<open>calculateDiff\<close> puts
  around whatever its try block throws (its message says that the diff computation
  failed, followed by the message of the cause).
\<close>

datatype error = LevenshteinTimeout | DiffFailed error

text \<open>
  The outcome of a call: \<open>None\<close> when the call never returns, \<open>Some (Inl e)\<close> when it
  throws \<open>e\<close>, \<open>Some (Inr v)\<close> when it returns \<open>v\<close>.
\<close>

type_synonym 'a outcome = "(error + 'a) option"

section \<open>The alignment engine: calculateLevenshtein\<close>

text \<open>\<open>x || ''\<close> on an optional string.\<close>

definition orEmpty :: "jsstring option \<Rightarrow> jsstring" where
  "orEmpty s = (case s of None \<Rightarrow> [] | Some c \<Rightarrow> c)"

text \<open>\<open>options.timeout || 5000\<close>: an absent timeout and the falsy value 0 give 5000.\<close>

definition effectiveTimeout :: "LevenshteinOptions \<Rightarrow> int" where
  "effectiveTimeout options =
     (case timeout options of None \<Rightarrow> 5000 | Some t \<Rightarrow> if t = 0 then 5000 else t)"

text \<open>The assignment \<open>dp[i][j] = v\<close> on the matrix, a list of rows.\<close>

definition setCell :: "nat list list \<Rightarrow> nat \<Rightarrow> nat \<Rightarrow> nat \<Rightarrow> nat list list" where
  "setCell dp i j v = dp[i := (dp ! i)[j := v]]"

text \<open>\<open>Array(m + 1).fill(null).map(() => Array(n + 1).fill(0))\<close>\<close>

definition newMatrix :: "nat \<Rightarrow> nat \<Rightarrow> nat list list" where
  "newMatrix m n = replicate (m + 1) (replicate (n + 1) 0)"

text \<open>The two boundary loops: \<open>dp[i][0] = i\<close> for i = 0..m, then \<open>dp[0][j] = j\<close> for j = 0..n.\<close>

definition initBoundary :: "nat \<Rightarrow> nat \<Rightarrow> nat list list \<Rightarrow> nat list list" where
  "initBoundary m n dp =
     fold (\<lambda>j d. setCell d 0 j j) [0..<n + 1] (fold (\<lambda>i d. setCell d i 0 i) [0..<m + 1] dp)"

text \<open>The body of the inner loop at cell (i, j), for 1 \<le> i \<le> m and 1 \<le> j \<le> n.\<close>

definition fillCell ::
  "jsstring list \<Rightarrow> jsstring list \<Rightarrow> nat \<Rightarrow> nat \<Rightarrow> nat list list \<Rightarrow> nat list list" where
  "fillCell str1 str2 i j dp =
     (if str1 ! (i - 1) = str2 ! (j - 1)
      then setCell dp i j (dp ! (i - 1) ! (j - 1))
      else setCell dp i j
             (min (dp ! (i - 1) ! j + 1) (min (dp ! i ! (j - 1) + 1) (dp ! (i - 1) ! (j - 1) + 1))))"

text \<open>The inner loop \<open>for (let j = 1; j <= n; j++)\<close> of row i.\<close>

definition fillRow ::
  "jsstring list \<Rightarrow> jsstring list \<Rightarrow> nat \<Rightarrow> nat \<Rightarrow> nat list list \<Rightarrow> nat list list" where
  "fillRow str1 str2 n i dp = fold (fillCell str1 str2 i) [1..<n + 1] dp"

text \<open>
  The outer loop over the rows still to fill. \<open>Date.now()\<close> is read once before the loop
  (reading 0, the start time) and once at the top of row i (reading i): \<open>now k\<close> is the
  value of the k-th reading, in milliseconds. The row throws when the elapsed time
  exceeds the budget.
\<close>

fun fillRows ::
  "(nat \<Rightarrow> int) \<Rightarrow> int \<Rightarrow> jsstring list \<Rightarrow> jsstring list \<Rightarrow> nat \<Rightarrow> nat list \<Rightarrow>
   nat list list \<Rightarrow> error + nat list list" where
  "fillRows now budget str1 str2 n [] dp = Inr dp"
| "fillRows now budget str1 str2 n (i # rows) dp =
     (if now i - now 0 > budget then Inl LevenshteinTimeout
      else fillRows now budget str1 str2 n rows (fillRow str1 str2 n i dp))"

text \<open>
  One iteration of the backtrace loop at (i, j): the operation pushed, if any, and the
  next (i, j). The four branches are tried in the order of the source. The source has no
  final else: when no branch fires, i and j stay as they are and the loop never exits,
  which is the result \<open>None\<close>. The loop starts at (m, n) and only decreases i and j, so
  every read of the matrix and of the two sequences is in range.
\<close>

definition backtraceStep ::
  "nat list list \<Rightarrow> jsstring list \<Rightarrow> jsstring list \<Rightarrow> nat \<Rightarrow> nat \<Rightarrow>
   (LevenshteinOperation option \<times> nat \<times> nat) option" where
  "backtraceStep dp str1 str2 i j =
     (if i > 0 \<and> j > 0 \<and> str1 ! (i - 1) = str2 ! (j - 1) then Some (None, i - 1, j - 1)
      else if i > 0 \<and> j > 0 \<and> dp ! i ! j = dp ! (i - 1) ! (j - 1) + 1 then
        Some (Some \<lparr>op_type = Replace, position = i - 1,
                    oldChar = Some (str1 ! (i - 1)), newChar = Some (str2 ! (j - 1))\<rparr>,
              i - 1, j - 1)
      else if i > 0 \<and> dp ! i ! j = dp ! (i - 1) ! j + 1 then
        Some (Some \<lparr>op_type = Delete, position = i - 1,
                    oldChar = Some (str1 ! (i - 1)), newChar = None\<rparr>,
              i - 1, j)
      else if j > 0 \<and> dp ! i ! j = dp ! i ! (j - 1) + 1 then
        Some (Some \<lparr>op_type = Insert, position = i,
                    oldChar = None, newChar = Some (str2 ! (j - 1))\<rparr>,
              i, j - 1)
      else None)"

text \<open>
  The loop \<open>while (i > 0 || j > 0)\<close>; \<open>ops\<close> is the array the operations are pushed to.
\<close>

function backtrace ::
  "nat list list \<Rightarrow> jsstring list \<Rightarrow> jsstring list \<Rightarrow> nat \<Rightarrow> nat \<Rightarrow>
   LevenshteinOperation list \<Rightarrow> LevenshteinOperation list option" where
  "backtrace dp str1 str2 i j ops =
     (if i > 0 \<or> j > 0 then
        (case backtraceStep dp str1 str2 i j of
           None \<Rightarrow> None
         | Some (e, i', j') \<Rightarrow>
             backtrace dp str1 str2 i' j' (case e of None \<Rightarrow> ops | Some op \<Rightarrow> ops @ [op]))
      else Some ops)"
  by pat_completeness auto
termination
  by (relation "measure (\<lambda>(dp, str1, str2, i, j, ops). i + j)")
     (auto simp: backtraceStep_def split: if_splits)

declare backtrace.simps [simp del]

text \<open>
  The part that both versions of \<open>calculateLevenshtein\<close> share: the matrix, the
  backtrace and \<open>operations.reverse()\<close>. It yields \<open>dp[m][n]\<close> and the reversed list.
\<close>

definition alignUnits ::
  "(nat \<Rightarrow> int) \<Rightarrow> LevenshteinOptions \<Rightarrow> jsstring list \<Rightarrow> jsstring list \<Rightarrow>
   (nat \<times> LevenshteinOperation list) outcome" where
  "alignUnits now options str1 str2 =
     (let m = length str1; n = length str2 in
      case fillRows now (effectiveTimeout options) str1 str2 n [1..<m + 1]
             (initBoundary m n (newMatrix m n)) of
        Inl e \<Rightarrow> Some (Inl e)
      | Inr dp \<Rightarrow>
          (case backtrace dp str1 str2 m n [] of
             None \<Rightarrow> None
           | Some ops \<Rightarrow> Some (Inr (dp ! m ! n, rev ops))))"

section \<open>The operation optimizer: optimizeOperations\<close>

text \<open>
  The inner while loop that absorbs the inserts following an insert at position \<open>pos\<close>:
  it returns the final \<open>nextIndex\<close> and \<open>mergedContent\<close>.
\<close>

function mergeInserts ::
  "LevenshteinOperation list \<Rightarrow> nat \<Rightarrow> nat \<Rightarrow> jsstring \<Rightarrow> nat \<times> jsstring" where
  "mergeInserts ops pos nextIndex mergedContent =
     (if nextIndex < length ops \<and>
         op_type (ops ! nextIndex) = Insert \<and>
         position (ops ! nextIndex) = pos
      then mergeInserts ops pos (nextIndex + 1)
             (mergedContent @ orEmpty (newChar (ops ! nextIndex)))
      else (nextIndex, mergedContent))"
  by pat_completeness auto
termination
  by (relation "measure (\<lambda>(ops, pos, nextIndex, mergedContent).
                  length ops - nextIndex)") auto

declare mergeInserts.simps [simp del]

text \<open>
  The for loop of \<open>optimizeOperations\<close>, at index \<open>i\<close> with the array \<open>optimized\<close> built
  so far. In the insert branch the source sets \<open>i = nextIndex\<close> when it merges a replace,
  then in both cases \<open>i = nextIndex - 1\<close>, and the loop header adds 1: the next index is
  \<open>nextIndex - 1 + 1\<close> either way, so a merged replace is visited again, as a non-insert.
\<close>

function optimizeLoop ::
  "LevenshteinOperation list \<Rightarrow> nat \<Rightarrow> LevenshteinOperation list \<Rightarrow>
   LevenshteinOperation list" where
  "optimizeLoop ops i optimized =
     (if i < length ops then
        (let current = ops ! i in
         if op_type current = Insert then
           (let merged = mergeInserts ops (position current) (i + 1)
                           (orEmpty (newChar current));
                nextIndex = fst merged;
                mergedContent = snd merged
            in if nextIndex < length ops \<and>
                  op_type (ops ! nextIndex) = Replace \<and>
                  position (ops ! nextIndex) = position current
               then optimizeLoop ops (nextIndex - 1 + 1)
                      (optimized @
                       [\<lparr>op_type = Insert, position = position current, oldChar = None,
                         newChar = Some (mergedContent @
                                         orEmpty (newChar (ops ! nextIndex)))\<rparr>])
               else optimizeLoop ops (nextIndex - 1 + 1)
                      (optimized @
                       [\<lparr>op_type = Insert, position = position current, oldChar = None,
                         newChar = Some mergedContent\<rparr>]))
         else
           (let hasPrecedingInsert =
                  (optimized \<noteq> [] \<and> op_type (last optimized) = Insert \<and>
                   position (last optimized) = position current)
            in optimizeLoop ops (i + 1)
                 (if hasPrecedingInsert then optimized else optimized @ [current])))
      else optimized)"
  by pat_completeness auto
termination
proof -
  have index: "k \<le> fst (mergeInserts ops pos k c)" for ops pos k c
  proof (induction ops pos k c rule: mergeInserts.induct)
    case (1 ops pos k c)
    show ?case
    proof (cases "k < length ops \<and> op_type (ops ! k) = Insert \<and> position (ops ! k) = pos")
      case True
      with "1.IH" have
        "k + 1 \<le> fst (mergeInserts ops pos (k + 1) (c @ orEmpty (newChar (ops ! k))))"
        by simp
      with True show ?thesis by (subst mergeInserts.simps) simp
    next
      case False
      then show ?thesis by (subst mergeInserts.simps) auto
    qed
  qed
  have "length ops - Suc (fst (mergeInserts ops pos (Suc i) c) - Suc 0) < length ops - i"
    if "i < length ops" for ops pos i c
    using index [of "Suc i" ops pos c] that by simp
  then show ?thesis
    by (relation "measure (\<lambda>(ops, i, optimized). length ops - i)") auto
qed

declare optimizeLoop.simps [simp del]

definition optimizeOperations :: "LevenshteinOperation list \<Rightarrow> LevenshteinOperation list" where
  "optimizeOperations ops =
     (if length ops = 0 then ops else optimizeLoop ops 0 [])"

text \<open>
  \<open>calculateLevenshtein\<close> of levenshtein.ts: the alignment, then the optimizer on the
  reversed operations; the edit distance is \<open>dp[m][n]\<close>.
\<close>

definition calculateLevenshtein ::
  "(nat \<Rightarrow> int) \<Rightarrow> LevenshteinOptions \<Rightarrow> jsstring list \<Rightarrow> jsstring list \<Rightarrow>
   LevenshteinResult outcome" where
  "calculateLevenshtein now options str1 str2 =
     (case alignUnits now options str1 str2 of
        None \<Rightarrow> None
      | Some (Inl e) \<Rightarrow> Some (Inl e)
      | Some (Inr (d, ops)) \<Rightarrow>
          Some (Inr \<lparr>editDistance = d, operations = optimizeOperations ops\<rparr>))"

text \<open>
  The earlier \<open>calculateLevenshtein\<close> (the second module of textProcessor.ts), which
  returns the reversed operations as they are, with no optimization pass.
\<close>

definition calculateLevenshteinUnoptimized ::
  "(nat \<Rightarrow> int) \<Rightarrow> LevenshteinOptions \<Rightarrow> jsstring list \<Rightarrow> jsstring list \<Rightarrow>
   LevenshteinResult outcome" where
  "calculateLevenshteinUnoptimized now options str1 str2 =
     (case alignUnits now options str1 str2 of
        None \<Rightarrow> None
      | Some (Inl e) \<Rightarrow> Some (Inl e)
      | Some (Inr (d, ops)) \<Rightarrow> Some (Inr \<lparr>editDistance = d, operations = ops\<rparr>))"

text \<open>
  The messages a validation routine can collect: that the timeout must be greater than
  0, and that the precision must be character, word or line.
\<close>

datatype validation_error = TimeoutMustBePositive | PrecisionMustBeKnown

record ValidationResult =
  isValid :: bool
  errors :: "validation_error list"

definition validateLevenshteinOptions :: "LevenshteinOptions \<Rightarrow> ValidationResult" where
  "validateLevenshteinOptions options =
     (let errs = (case timeout options of
                    None \<Rightarrow> []
                  | Some t \<Rightarrow> if t \<le> 0 then [TimeoutMustBePositive] else [])
      in \<lparr>isValid = (length errs = 0), errors = errs\<rparr>)"

section \<open>The diff record builder\<close>

text \<open>
  The \<open>type\<close> of a \<open>DiffRecord\<close>: 'add' | 'delete' | 'modify'. The fields \<open>position\<close>
  and \<open>type\<close> of the record are \<open>diffPosition\<close> and \<open>diffType\<close> here.
\<close>

datatype diff_type = AddRec | DeleteRec | ModifyRec

record DiffRecord =
  diffPosition :: nat
  diffType :: diff_type
  content :: jsstring
  originalContent :: "jsstring option"

definition convertOperation :: "LevenshteinOperation \<Rightarrow> DiffRecord" where
  "convertOperation op =
     (case op_type op of
        Replace \<Rightarrow> \<lparr>diffPosition = position op, diffType = ModifyRec,
                     content = orEmpty (newChar op), originalContent = oldChar op\<rparr>
      | Delete \<Rightarrow> \<lparr>diffPosition = position op, diffType = DeleteRec,
                    content = orEmpty (oldChar op), originalContent = None\<rparr>
      | Insert \<Rightarrow> \<lparr>diffPosition = position op, diffType = AddRec,
                    content = orEmpty (newChar op), originalContent = None\<rparr>)"

definition convertOperationsToDiffRecords :: "LevenshteinOperation list \<Rightarrow> DiffRecord list" where
  "convertOperationsToDiffRecords ops = map convertOperation ops"

section \<open>The text normalizer and the segmenter\<close>

text \<open>\<open>removeBOM\<close>: one leading U+FEFF is dropped.\<close>

definition removeBOM :: "jsstring \<Rightarrow> jsstring" where
  "removeBOM text = (case text of [] \<Rightarrow> text | c # rest \<Rightarrow> if c = 0xFEFF then rest else text)"

text \<open>\<open>text.replace(/\r\n/g, '\n')\<close>: the pairs are matched from the left.\<close>

fun replaceCRLF :: "jsstring \<Rightarrow> jsstring" where
  "replaceCRLF (c # d # rest) =
     (if c = 0x0D \<and> d = 0x0A then 0x0A # replaceCRLF rest else c # replaceCRLF (d # rest))"
| "replaceCRLF text = text"

definition normalizeLineBreaks :: "jsstring \<Rightarrow> jsstring" where
  "normalizeLineBreaks text = map (\<lambda>c. if c = 0x0D then 0x0A else c) (replaceCRLF text)"

text \<open>
  The replacement of \<open>/ {k+1,}/g\<close> by k spaces: \<open>run\<close> counts the spaces of the run being
  read; a maximal run longer than k is written back as k spaces, a shorter one as it is.
\<close>

fun collapseSpaces :: "nat \<Rightarrow> nat \<Rightarrow> jsstring \<Rightarrow> jsstring" where
  "collapseSpaces k run [] = replicate (if run > k then k else run) 0x20"
| "collapseSpaces k run (c # rest) =
     (if c = 0x20 then collapseSpaces k (run + 1) rest
      else replicate (if run > k then k else run) 0x20 @ c # collapseSpaces k 0 rest)"

text \<open>\<open>normalizeWhitespace\<close>, its three options given as values.\<close>

definition normalizeWhitespace :: "bool \<Rightarrow> bool \<Rightarrow> nat \<Rightarrow> jsstring \<Rightarrow> jsstring" where
  "normalizeWhitespace preserveTabs normalizeSpaces maxConsecutiveSpaces text =
     (let result = (if \<not> preserveTabs then map (\<lambda>c. if c = 0x09 then 0x20 else c) text
                    else text)
      in if normalizeSpaces \<and> maxConsecutiveSpaces > 0
         then collapseSpaces maxConsecutiveSpaces 0 result else result)"

text \<open>
  \<open>preprocessText(text)\<close> as \<open>calculateDiff\<close> calls it, with no options: every step is
  on, and the whitespace options are the defaults (tabs are replaced, at most 2
  consecutive spaces are kept).
\<close>

definition preprocessText :: "jsstring \<Rightarrow> jsstring" where
  "preprocessText text = normalizeWhitespace False True 2 (normalizeLineBreaks (removeBOM text))"

text \<open>
  \<open>splitIntoChars\<close>: the spread operator iterates by code point, so a high surrogate
  followed by a low surrogate is one unit of two code units.
\<close>

definition isHighSurrogate :: "16 word \<Rightarrow> bool" where
  "isHighSurrogate c = (0xD800 \<le> c \<and> c \<le> 0xDBFF)"

definition isLowSurrogate :: "16 word \<Rightarrow> bool" where
  "isLowSurrogate c = (0xDC00 \<le> c \<and> c \<le> 0xDFFF)"

fun splitIntoChars :: "jsstring \<Rightarrow> jsstring list" where
  "splitIntoChars (c # d # rest) =
     (if isHighSurrogate c \<and> isLowSurrogate d then [c, d] # splitIntoChars rest
      else [c] # splitIntoChars (d # rest))"
| "splitIntoChars [c] = [[c]]"
| "splitIntoChars [] = []"

text \<open>The class \<open>\s\<close> of a JavaScript regular expression.\<close>

definition isWhiteSpace :: "16 word \<Rightarrow> bool" where
  "isWhiteSpace c =
     (c \<in> {0x09, 0x0A, 0x0B, 0x0C, 0x0D, 0x20, 0xA0, 0x1680, 0x2028, 0x2029, 0x202F, 0x205F,
            0x3000, 0xFEFF} \<or> (0x2000 \<le> c \<and> c \<le> 0x200A))"

text \<open>
  \<open>text.split(/(\s+)/)\<close>: the pieces between the maximal whitespace runs, with the runs
  themselves kept as elements. \<open>piece\<close> is the piece being read, \<open>run\<close> the whitespace
  run being read after it (empty outside a run).
\<close>

fun splitWords :: "jsstring \<Rightarrow> jsstring \<Rightarrow> jsstring \<Rightarrow> jsstring list" where
  "splitWords piece run [] = (if run = [] then [piece] else [piece, run, []])"
| "splitWords piece run (c # rest) =
     (if isWhiteSpace c then splitWords piece (run @ [c]) rest
      else if run = [] then splitWords (piece @ [c]) [] rest
      else piece # run # splitWords [c] [] rest)"

text \<open>\<open>text.split(/(\n)/)\<close>: every line feed is an element of its own.\<close>

fun splitLines :: "jsstring \<Rightarrow> jsstring \<Rightarrow> jsstring list" where
  "splitLines piece [] = [piece]"
| "splitLines piece (c # rest) =
     (if c = 0x0A then piece # [0x0A] # splitLines [] rest
      else splitLines (piece @ [c]) rest)"

section \<open>The diff entry point: calculateDiff\<close>

text \<open>
  The \<open>precision\<close> option. Its declared values are 'character', 'word' and 'line'; the
  validation routine also expects other strings at run time. The field \<open>timeout\<close> of
  \<open>DiffOptions\<close> is \<open>diffTimeout\<close> here, and the field \<open>editDistance\<close> of \<open>DiffResult\<close>
  is \<open>diffEditDistance\<close>.
\<close>

datatype precision = ByCharacter | ByWord | ByLine | OtherPrecision jsstring

record DiffOptions =
  diffTimeout :: "int option"
  ignoreWhitespace :: "bool option"
  ignoreCase :: "bool option"
  precision :: "precision option"

record DiffResult =
  diffEditDistance :: nat
  diffs :: "DiffRecord list"
  similarity :: rat
  text1 :: jsstring
  text2 :: jsstring

definition getSplitFunction :: "precision option \<Rightarrow> jsstring \<Rightarrow> jsstring list" where
  "getSplitFunction p =
     (case p of
        Some ByCharacter \<Rightarrow> splitIntoChars
      | Some ByWord \<Rightarrow> splitWords [] []
      | Some ByLine \<Rightarrow> splitLines []
      | _ \<Rightarrow> splitIntoChars)"

text \<open>
  JavaScript numbers are IEEE 754 double-precision values. A finite double is modelled
  by the rational number it denotes, and an arithmetic operation of the source by the
  exact operation followed by \<open>roundDouble\<close>: rounding to the nearest double, a tie going to
  the even significand. The exponent is not bounded here: lengths and distances are
  integers below \<open>2^53\<close>, which are doubles, and no value that \<open>calculateSimilarity\<close>
  computes from them leaves the range of the normal doubles.
\<close>

text \<open>The nearest integer, a tie going to the even one.\<close>

definition roundHalfEven :: "rat \<Rightarrow> int" where
  "roundHalfEven q =
     (let f = \<lfloor>q\<rfloor>; r = q - of_int f in
      if r < 1 / 2 then f else if 1 / 2 < r then f + 1 else if even f then f else f + 1)"

text \<open>
  The binary exponent of a positive number x: the e with \<open>2^e \<le> x < 2^(e + 1)\<close>. The
  difference of the bit lengths of numerator and denominator is e or e + 1.
\<close>

definition binaryExponent :: "rat \<Rightarrow> int" where
  "binaryExponent x =
     (let e0 = bitlen (fst (quotient_of x)) - bitlen (snd (quotient_of x)) in
      if 2 powi e0 \<le> x then e0 else e0 - 1)"

text \<open>
  The double nearest to x: the significand has 53 bits, so the doubles around x are the
  multiples of \<open>2^(e - 52)\<close>, e the binary exponent of \<open>\<bar>x\<bar>\<close>.
\<close>

definition roundDouble :: "rat \<Rightarrow> rat" where
  "roundDouble x =
     (if x = 0 then 0
      else (let ulp = 2 powi (binaryExponent \<bar>x\<bar> - 52)
            in sgn x * of_int (roundHalfEven (\<bar>x\<bar> / ulp)) * ulp))"

text \<open>\<open>Math.round\<close>: the nearest integer, a half rounded up; the result is exact.\<close>

definition mathRound :: "rat \<Rightarrow> int" where
  "mathRound x = \<lfloor>x + 1 / 2\<rfloor>"

text \<open>
  \<open>calculateSimilarity\<close>. The lengths are those of the strings, in code units. The
  division, the subtraction, the two multiplications by 100 and the final division by
  100 each round to a double; \<open>Math.max\<close> and \<open>Math.round\<close> are exact.
\<close>

definition calculateSimilarity :: "jsstring \<Rightarrow> jsstring \<Rightarrow> nat \<Rightarrow> rat" where
  "calculateSimilarity t1 t2 d =
     (let maxLength = max (length t1) (length t2) in
      if maxLength = 0 then 100
      else (let sim = max 0 (roundDouble
                               (roundDouble (1 - roundDouble (of_nat d / of_nat maxLength)) * 100))
            in roundDouble (of_int (mathRound (roundDouble (sim * 100))) / 100)))"

text \<open>
  \<open>calculateDiff\<close> of the Levenshtein-based diffAlgorithm module. \<open>toLowerCase\<close> is the
  string method of the platform, taken as a parameter. The options are spread over the
  defaults (timeout 5000, ignoreCase false, precision 'character'); whatever the try
  block throws is rethrown wrapped.
\<close>

definition calculateDiff ::
  "(nat \<Rightarrow> int) \<Rightarrow> (jsstring \<Rightarrow> jsstring) \<Rightarrow> DiffOptions \<Rightarrow> jsstring \<Rightarrow> jsstring \<Rightarrow>
   DiffResult outcome" where
  "calculateDiff now toLowerCase options t1 t2 =
     (let finalTimeout = (case diffTimeout options of None \<Rightarrow> 5000 | Some t \<Rightarrow> t);
          finalIgnoreCase = (case ignoreCase options of None \<Rightarrow> False | Some b \<Rightarrow> b);
          finalPrecision = (case precision options of None \<Rightarrow> Some ByCharacter | Some p \<Rightarrow> Some p);
          processedText1 = preprocessText t1;
          processedText2 = preprocessText t2;
          compareText1 = (if finalIgnoreCase then toLowerCase processedText1 else processedText1);
          compareText2 = (if finalIgnoreCase then toLowerCase processedText2 else processedText2);
          splitFunc = getSplitFunction finalPrecision;
          chars1 = splitFunc compareText1;
          chars2 = splitFunc compareText2
      in case calculateLevenshtein now \<lparr>timeout = Some finalTimeout\<rparr> chars1 chars2 of
           None \<Rightarrow> None
         | Some (Inl e) \<Rightarrow> Some (Inl (DiffFailed e))
         | Some (Inr r) \<Rightarrow>
             Some (Inr \<lparr>diffEditDistance = editDistance r,
                        diffs = convertOperationsToDiffRecords (operations r),
                        similarity = calculateSimilarity processedText1 processedText2
                                       (editDistance r),
                        text1 = processedText1,
                        text2 = processedText2\<rparr>))"

text \<open>
  \<open>validateDiffOptions\<close>: a timeout that is present and not positive is an error; a
  precision that is a non-empty string other than the three known ones is an error.
\<close>

definition validateDiffOptions :: "DiffOptions \<Rightarrow> ValidationResult" where
  "validateDiffOptions options =
     (let errs1 = (case diffTimeout options of
                     None \<Rightarrow> []
                   | Some t \<Rightarrow> if t \<le> 0 then [TimeoutMustBePositive] else []);
          errs2 = (case precision options of
                     Some (OtherPrecision s) \<Rightarrow> if s \<noteq> [] then [PrecisionMustBeKnown] else []
                   | _ \<Rightarrow> [])
      in \<lparr>isValid = (length (errs1 @ errs2) = 0), errors = errs1 @ errs2\<rparr>)"

section \<open>Reference notions\<close>

text \<open>
  The matrix invariant of the specification: row 0 and column 0 hold the identity costs,
  and every other cell (i, j) is the diagonal cell when the units at i - 1 and j - 1 are
  equal, and 1 + the minimum of the cells above, to the left and on the diagonal
  otherwise.
\<close>

fun cellSpec :: "'a list \<Rightarrow> 'a list \<Rightarrow> nat \<Rightarrow> nat \<Rightarrow> nat" where
  "cellSpec source target 0 j = j"
| "cellSpec source target (Suc i) 0 = Suc i"
| "cellSpec source target (Suc i) (Suc j) =
     (if source ! i = target ! j then cellSpec source target i j
      else 1 + min (cellSpec source target i (Suc j))
                   (min (cellSpec source target (Suc i) j) (cellSpec source target i j)))"

text \<open>
  The backtrace of the specification, on the invariant itself: from the cell (i, j) it
  moves diagonally without an operation when the two units are equal; otherwise it
  checks, in this order, replace (the cell is the diagonal cell + 1), delete (the cell
  above + 1) and insert (the cell to the left + 1), and takes the first that matches.
  The list holds the operations in the order in which they are emitted, the last
  operation of the alignment first.
\<close>

fun transitionTrace ::
  "jsstring list \<Rightarrow> jsstring list \<Rightarrow> nat \<Rightarrow> nat \<Rightarrow> LevenshteinOperation list" where
  "transitionTrace source target i j =
     (if 0 < i \<and> 0 < j \<and> source ! (i - 1) = target ! (j - 1) then
        transitionTrace source target (i - 1) (j - 1)
      else if 0 < i \<and> 0 < j \<and>
              cellSpec source target i j = cellSpec source target (i - 1) (j - 1) + 1 then
        \<lparr>op_type = Replace, position = i - 1,
          oldChar = Some (source ! (i - 1)), newChar = Some (target ! (j - 1))\<rparr> #
        transitionTrace source target (i - 1) (j - 1)
      else if 0 < i \<and> cellSpec source target i j = cellSpec source target (i - 1) j + 1 then
        \<lparr>op_type = Delete, position = i - 1,
          oldChar = Some (source ! (i - 1)), newChar = None\<rparr> #
        transitionTrace source target (i - 1) j
      else if 0 < j \<and> cellSpec source target i j = cellSpec source target i (j - 1) + 1 then
        \<lparr>op_type = Insert, position = i,
          oldChar = None, newChar = Some (target ! (j - 1))\<rparr> #
        transitionTrace source target i (j - 1)
      else [])"

declare transitionTrace.simps [simp del]

text \<open>
  Edit scripts, for the meaning of the distance: a script walks the source from left to
  right and keeps, replaces or deletes the unit under it, or inserts a unit before it;
  it must use up the source. Its cost is the number of steps other than keeping, and
  \<open>minimalEditCost source target d\<close> says that d is the least cost of a script that
  turns the source into the target.
\<close>

datatype 'a edit = KeepUnit | ReplaceUnit 'a | InsertUnit 'a | DeleteUnit

fun applyEdits :: "'a edit list \<Rightarrow> 'a list \<Rightarrow> 'a list option" where
  "applyEdits [] [] = Some []"
| "applyEdits [] (x # xs) = None"
| "applyEdits (InsertUnit y # es) xs = map_option ((#) y) (applyEdits es xs)"
| "applyEdits (KeepUnit # es) (x # xs) = map_option ((#) x) (applyEdits es xs)"
| "applyEdits (ReplaceUnit y # es) (x # xs) = map_option ((#) y) (applyEdits es xs)"
| "applyEdits (DeleteUnit # es) (x # xs) = applyEdits es xs"
| "applyEdits (e # es) [] = None"

definition editCost :: "'a edit list \<Rightarrow> nat" where
  "editCost es = length (filter (\<lambda>e. e \<noteq> KeepUnit) es)"

definition minimalEditCost :: "'a list \<Rightarrow> 'a list \<Rightarrow> nat \<Rightarrow> bool" where
  "minimalEditCost source target d =
     ((\<exists>es. applyEdits es source = Some target \<and> editCost es = d) \<and>
      (\<forall>es. applyEdits es source = Some target \<longrightarrow> d \<le> editCost es))"

text \<open>
  The timeout check of one of the rows 1..m fires: the elapsed time read at the top of
  the row exceeds the budget.
\<close>

definition timedOut :: "(nat \<Rightarrow> int) \<Rightarrow> int \<Rightarrow> nat \<Rightarrow> bool" where
  "timedOut now budget m = list_ex (\<lambda>i. now i - now 0 > budget) [1..<m + 1]"

text \<open>
  The budget and the unit sequences that \<open>calculateDiff\<close> hands to the alignment: the
  timeout option over its default of 5000 (then the fallback of the alignment itself),
  and the normalized text, lower-cased when \<open>ignoreCase\<close> is set, split by the precision.
\<close>

definition diffBudget :: "DiffOptions \<Rightarrow> int" where
  "diffBudget options =
     effectiveTimeout \<lparr>timeout = Some (case diffTimeout options of None \<Rightarrow> 5000 | Some t \<Rightarrow> t)\<rparr>"

definition diffUnits :: "(jsstring \<Rightarrow> jsstring) \<Rightarrow> DiffOptions \<Rightarrow> jsstring \<Rightarrow> jsstring list" where
  "diffUnits toLowerCase options text =
     getSplitFunction (case precision options of None \<Rightarrow> Some ByCharacter | Some p \<Rightarrow> Some p)
       (if (case ignoreCase options of None \<Rightarrow> False | Some b \<Rightarrow> b)
        then toLowerCase (preprocessText text) else preprocessText text)"

text \<open>"Rounded to two decimal places": to the nearest hundredth, a half rounded up.\<close>

definition roundToTwoDecimals :: "rat \<Rightarrow> rat" where
  "roundToTwoDecimals x = of_int \<lfloor>x * 100 + 1 / 2\<rfloor> / 100"

text \<open>
  The similarity formula of the specification in exact arithmetic:
  \<open>max(0, 1 - editDistance / max(len(text1), len(text2))) * 100\<close>, and 100 when both
  texts are empty.
\<close>

definition exactSimilarity :: "jsstring \<Rightarrow> jsstring \<Rightarrow> nat \<Rightarrow> rat" where
  "exactSimilarity t1 t2 d =
     (if t1 = [] \<and> t2 = [] then 100
      else max 0 (1 - of_nat d / of_nat (max (length t1) (length t2))) * 100)"

text \<open>
  A percentage x is near a tie of the rounding to two decimals when \<open>x * 100\<close> lies
  within \<open>10^-11\<close> of a number halfway between two integers.
\<close>

definition nearTie :: "rat \<Rightarrow> bool" where
  "nearTie x =
     (frac (x * 100 + 1 / 2) < 1 / 10 ^ 11 \<or> 1 - 1 / 10 ^ 11 < frac (x * 100 + 1 / 2))"

text \<open>
  Two texts of 160 characters at distance 63: 160 times "a", and 63 times "b" followed
  by 97 times "a". Their exact similarity is 60.625.
\<close>

definition tieText1 :: jsstring where
  "tieText1 = replicate 160 0x61"

definition tieText2 :: jsstring where
  "tieText2 = replicate 63 0x62 @ replicate 97 0x61"

text \<open>
  Values for the closed examples: a clock on which no time passes, a clock that advances
  one millisecond per reading, lower-casing of the ASCII letters for \<open>toLowerCase\<close>,
  the empty options object, and the texts of the scenarios.
\<close>

definition frozenClock :: "nat \<Rightarrow> int" where
  "frozenClock k = 0"

definition tickingClock :: "nat \<Rightarrow> int" where
  "tickingClock k = int k"

definition asciiToLowerCase :: "jsstring \<Rightarrow> jsstring" where
  "asciiToLowerCase text = map (\<lambda>c. if 0x41 \<le> c \<and> c \<le> 0x5A then c + 0x20 else c) text"

definition defaultOptions :: DiffOptions where
  "defaultOptions = \<lparr>diffTimeout = None, ignoreWhitespace = None, ignoreCase = None,
                      precision = None\<rparr>"

definition kitten :: jsstring where
  "kitten = [0x6B, 0x69, 0x74, 0x74, 0x65, 0x6E]"

definition sitting :: jsstring where
  "sitting = [0x73, 0x69, 0x74, 0x74, 0x69, 0x6E, 0x67]"

definition abc :: jsstring where
  "abc = [0x61, 0x62, 0x63]"

text \<open>
  Replaying diff records against a source, in position order. The source is the unit
  sequence, a position is an index into it, and the result is the text written. A step
  carries the next unread source index and the text so far: it copies the source units
  before the record's position, then an add writes its content, a delete skips the unit
  at its position, and a modify skips that unit and writes its content. At the end the
  unread rest of the source is copied.
\<close>

definition replayStep :: "jsstring list \<Rightarrow> DiffRecord \<Rightarrow> nat \<times> jsstring \<Rightarrow> nat \<times> jsstring" where
  "replayStep source r st =
     (let cur = fst st;
          copied = snd st @ concat (take (diffPosition r - cur) (drop cur source));
          anchor = max cur (diffPosition r)
      in case diffType r of
           AddRec \<Rightarrow> (anchor, copied @ content r)
         | DeleteRec \<Rightarrow> (anchor + 1, copied)
         | ModifyRec \<Rightarrow> (anchor + 1, copied @ content r))"

definition replay :: "DiffRecord list \<Rightarrow> jsstring list \<Rightarrow> jsstring" where
  "replay records source =
     (let st = fold (replayStep source) (sort_key diffPosition records) (0, [])
      in snd st @ concat (drop (fst st) source))"

text \<open>
  Some operation of the list is immediately followed by one that stands in the relation
  P to it; in particular an insert immediately followed by a replace at its position.
\<close>

fun adjacentOps ::
  "(LevenshteinOperation \<Rightarrow> LevenshteinOperation \<Rightarrow> bool) \<Rightarrow> LevenshteinOperation list \<Rightarrow> bool" where
  "adjacentOps P (a # b # rest) = (P a b \<or> adjacentOps P (b # rest))"
| "adjacentOps P ops = False"

definition insertThenReplace :: "LevenshteinOperation list \<Rightarrow> bool" where
  "insertThenReplace ops =
     adjacentOps (\<lambda>a b. op_type a = Insert \<and> op_type b = Replace \<and> position b = position a) ops"

text \<open>
  The operations of the unoptimized \<open>calculateLevenshtein\<close>, read off with a clock on
  which the timeout cannot fire.
\<close>

definition rawAlignment :: "jsstring list \<Rightarrow> jsstring list \<Rightarrow> LevenshteinOperation list" where
  "rawAlignment str1 str2 =
     (case calculateLevenshteinUnoptimized frozenClock \<lparr>timeout = None\<rparr> str1 str2 of
        Some (Inr r) \<Rightarrow> operations r
      | _ \<Rightarrow> [])"

text \<open>
  Position order of an operation list, as the backtrace emits it: along the list the
  positions never decrease, and after a delete or a replace they increase.
\<close>

definition precedes :: "LevenshteinOperation \<Rightarrow> LevenshteinOperation \<Rightarrow> bool" where
  "precedes a b =
     (if op_type a = Insert then position a \<le> position b else position a < position b)"

definition positionOrdered :: "LevenshteinOperation list \<Rightarrow> bool" where
  "positionOrdered ops = sorted_wrt precedes ops"

text \<open>
  Two option objects that \<open>validateDiffOptions\<close> reports as invalid: timeout 0 with the
  precision 'page', and timeout -1.
\<close>

definition unknownPrecisionOptions :: DiffOptions where
  "unknownPrecisionOptions =
     \<lparr>diffTimeout = Some 0, ignoreWhitespace = None, ignoreCase = None,
      precision = Some (OtherPrecision [0x70, 0x61, 0x67, 0x65])\<rparr>"

definition negativeTimeoutOptions :: DiffOptions where
  "negativeTimeoutOptions =
     \<lparr>diffTimeout = Some (- 1), ignoreWhitespace = None, ignoreCase = None, precision = None\<rparr>"

section \<open>Notions used in the proofs\<close>

text \<open>The matrix has m + 1 rows of n + 1 cells.\<close>

definition shaped :: "nat \<Rightarrow> nat \<Rightarrow> nat list list \<Rightarrow> bool" where
  "shaped m n dp = (length dp = m + 1 \<and> (\<forall>a \<le> m. length (dp ! a) = n + 1))"

text \<open>
  The state of the matrix when the fill loops stand at row i, column l: column 0, the
  rows before i, and the cells of row i before column l hold the value of the invariant.
\<close>

definition filledTo ::
  "jsstring list \<Rightarrow> jsstring list \<Rightarrow> nat \<Rightarrow> nat \<Rightarrow> nat \<Rightarrow> nat \<Rightarrow> nat list list \<Rightarrow> bool" where
  "filledTo s t m n i l dp =
     (shaped m n dp \<and>
      (\<forall>a b. a \<le> m \<and> b \<le> n \<and> (a < i \<or> b = 0 \<or> (a = i \<and> b < l)) \<longrightarrow>
             dp ! a ! b = cellSpec s t a b))"

text \<open>Every cell of the matrix holds the value of the invariant.\<close>

definition matrixOk :: "jsstring list \<Rightarrow> jsstring list \<Rightarrow> nat \<Rightarrow> nat \<Rightarrow> nat list list \<Rightarrow> bool" where
  "matrixOk s t m n dp = (\<forall>a \<le> m. \<forall>b \<le> n. dp ! a ! b = cellSpec s t a b)"

text \<open>The operations that the backtrace pushes at the cell (i, j).\<close>

definition replaceOp :: "jsstring list \<Rightarrow> jsstring list \<Rightarrow> nat \<Rightarrow> nat \<Rightarrow> LevenshteinOperation" where
  "replaceOp s t i j = \<lparr>op_type = Replace, position = i - 1,
                    oldChar = Some (s ! (i - 1)), newChar = Some (t ! (j - 1))\<rparr>"
definition deleteOp :: "jsstring list \<Rightarrow> nat \<Rightarrow> LevenshteinOperation" where
  "deleteOp s i = \<lparr>op_type = Delete, position = i - 1,
                    oldChar = Some (s ! (i - 1)), newChar = None\<rparr>"
definition insertOp :: "jsstring list \<Rightarrow> nat \<Rightarrow> nat \<Rightarrow> LevenshteinOperation" where
  "insertOp t i j = \<lparr>op_type = Insert, position = i,
                    oldChar = None, newChar = Some (t ! (j - 1))\<rparr>"

text \<open>
  The recurrence of the invariant on the two lists themselves, read from their heads; on
  the reversed prefixes of the sequences it is \<open>cellSpec\<close>.
\<close>

fun lev :: "'a list \<Rightarrow> 'a list \<Rightarrow> nat" where
  "lev [] ys = length ys"
| "lev (x # xs) [] = Suc (length xs)"
| "lev (x # xs) (y # ys) =
     (if x = y then lev xs ys
      else 1 + min (lev xs (y # ys)) (min (lev (x # xs) ys) (lev xs ys)))"

text \<open>
  The run of inserts at position \<open>pos\<close> at the head of a list: the merged content of
  the run, and the rest of the list.
\<close>

fun insertRun :: "nat \<Rightarrow> LevenshteinOperation list \<Rightarrow> jsstring \<times> LevenshteinOperation list" where
  "insertRun pos [] = ([], [])"
| "insertRun pos (x # xs) =
     (if op_type x = Insert \<and> position x = pos
      then (orEmpty (newChar x) @ fst (insertRun pos xs), snd (insertRun pos xs))
      else ([], x # xs))"

text \<open>
  The insert that the optimizer pushes when it reads the insert x followed by xs: the
  content of x, of the run after it, and of a replace at the same position after the run.
\<close>

definition mergedInsert :: "LevenshteinOperation \<Rightarrow> LevenshteinOperation list \<Rightarrow> LevenshteinOperation" where
  "mergedInsert x xs =
     \<lparr>op_type = Insert, position = position x, oldChar = None,
      newChar = Some (orEmpty (newChar x) @ fst (insertRun (position x) xs) @
                      (case snd (insertRun (position x) xs) of
                         [] \<Rightarrow> []
                       | r # rest \<Rightarrow> if op_type r = Replace \<and> position r = position x
                                    then orEmpty (newChar r) else []))\<rparr>"

text \<open>
  The optimizer as a recursion on the list still to read; \<open>prev\<close> is the position of
  the operation pushed last when that operation is an insert.
\<close>

function optimizeFrom :: "nat option \<Rightarrow> LevenshteinOperation list \<Rightarrow> LevenshteinOperation list" where
  "optimizeFrom prev [] = []"
| "optimizeFrom prev (x # xs) =
     (if op_type x = Insert
      then mergedInsert x xs # optimizeFrom (Some (position x)) (snd (insertRun (position x) xs))
      else if prev = Some (position x) then optimizeFrom prev xs
      else x # optimizeFrom None xs)"
  by pat_completeness auto
termination
proof -
  have "length (snd (insertRun pos xs)) \<le> length xs" for pos xs
    by (induction xs) (auto simp: le_SucI)
  then show ?thesis
    by (relation "measure (\<lambda>(prev, xs). length xs)") (auto simp: less_Suc_eq_le)
qed

declare optimizeFrom.simps(2) [simp del]

definition lastInsert :: "LevenshteinOperation list \<Rightarrow> nat option" where
  "lastInsert acc =
     (if acc \<noteq> [] \<and> op_type (last acc) = Insert then Some (position (last acc)) else None)"

text \<open>
  The lists of operations, in the order they are pushed, that the backtrace from the
  cell (i, j) can produce on a matrix that holds the invariant.
\<close>

inductive backtraced ::
  "jsstring list \<Rightarrow> jsstring list \<Rightarrow> nat \<Rightarrow> nat \<Rightarrow> LevenshteinOperation list \<Rightarrow> bool"
  for s t where
  origin: "backtraced s t 0 0 []"
| same: "0 < i \<Longrightarrow> 0 < j \<Longrightarrow> s ! (i - 1) = t ! (j - 1) \<Longrightarrow>
         backtraced s t (i - 1) (j - 1) ps \<Longrightarrow> backtraced s t i j ps"
| rep: "0 < i \<Longrightarrow> 0 < j \<Longrightarrow> backtraced s t (i - 1) (j - 1) ps \<Longrightarrow>
        backtraced s t i j (replaceOp s t i j # ps)"
| del: "0 < i \<Longrightarrow> j = 0 \<or> cellSpec s t i j \<le> cellSpec s t (i - 1) (j - 1) \<Longrightarrow>
        cellSpec s t i j = cellSpec s t (i - 1) j + 1 \<Longrightarrow>
        backtraced s t (i - 1) j ps \<Longrightarrow> backtraced s t i j (deleteOp s i # ps)"
| ins: "0 < j \<Longrightarrow> cellSpec s t i j = cellSpec s t i (j - 1) + 1 \<Longrightarrow>
        backtraced s t i (j - 1) ps \<Longrightarrow> backtraced s t i j (insertOp t i j # ps)"

text \<open>
  Lists that the optimizer returns as they are: no operation stands at the position of
  an insert just before it, and every insert has the form the optimizer pushes.
\<close>

fun settled :: "nat option \<Rightarrow> LevenshteinOperation list \<Rightarrow> bool" where
  "settled prev [] = True"
| "settled prev (x # xs) =
     (prev \<noteq> Some (position x) \<and>
      (if op_type x = Insert
       then oldChar x = None \<and> newChar x \<noteq> None \<and> settled (Some (position x)) xs
       else settled None xs))"

text \<open>
  The replay state after the operations backtraced from (i, j): the text written so far,
  followed by the unread source units before i, is the first j units of the target.
\<close>

definition replayed :: "jsstring list \<Rightarrow> jsstring list \<Rightarrow> nat \<Rightarrow> nat \<Rightarrow> nat \<times> jsstring \<Rightarrow> bool" where
  "replayed s t i j st =
     (fst st \<le> i \<and> snd st @ concat (take (i - fst st) (drop (fst st) s)) = concat (take j t))"

text \<open>An insert immediately followed by another kind of operation at its position.\<close>

definition insertThenOther :: "LevenshteinOperation \<Rightarrow> LevenshteinOperation \<Rightarrow> bool" where
  "insertThenOther a b = (op_type a = Insert \<and> op_type b \<noteq> Insert \<and> position b = position a)"

definition insertThenDelete :: "LevenshteinOperation \<Rightarrow> LevenshteinOperation \<Rightarrow> bool" where
  "insertThenDelete a b = (op_type a = Insert \<and> op_type b = Delete \<and> position b = position a)"

text \<open>The record of an insert.\<close>

definition addRecord :: "nat \<Rightarrow> jsstring \<Rightarrow> DiffRecord" where
  "addRecord p c = \<lparr>diffPosition = p, diffType = AddRec, content = c, originalContent = None\<rparr>"

section \<open>The filled matrix satisfies the invariant\<close>

lemma cellSpec_col0 [simp]: "cellSpec s t i 0 = i"
  by (cases i) simp_all

lemma setCell_shaped:
  "shaped m n dp \<Longrightarrow> shaped m n (setCell dp i j v)"
proof -
  assume sh: "shaped m n dp"
  have "length (dp[i := (dp ! i)[j := v]] ! a) = n + 1" if "a \<le> m" for a
    using sh that by (cases "a = i") (auto simp: shaped_def)
  with sh show ?thesis by (simp add: shaped_def setCell_def)
qed

lemma setCell_nth:
  "shaped m n dp \<Longrightarrow> i \<le> m \<Longrightarrow> j \<le> n \<Longrightarrow> a \<le> m \<Longrightarrow>
   setCell dp i j v ! a ! b = (if a = i \<and> b = j then v else dp ! a ! b)"
  by (auto simp: shaped_def setCell_def nth_list_update)

lemma fold_upt_invariant:
  assumes "P a x" and "a \<le> b"
    and step: "\<And>k y. a \<le> k \<Longrightarrow> k < b \<Longrightarrow> P k y \<Longrightarrow> P (Suc k) (f k y)"
  shows "P b (fold f [a..<b] x)"
proof -
  have "c \<le> b \<Longrightarrow> a \<le> c \<Longrightarrow> P c (fold f [a..<c] x)" for c
  proof (induction c)
    case 0
    with assms(1) show ?case by simp
  next
    case (Suc c)
    show ?case
    proof (cases "a = Suc c")
      case True
      with assms(1) show ?thesis by simp
    next
      case False
      with Suc.prems have le: "a \<le> c" "c < b" by simp_all
      then have "P c (fold f [a..<c] x)" using Suc.IH by simp
      then have "P (Suc c) (f c (fold f [a..<c] x))" using le by (rule_tac step)
      with le show ?thesis by simp
    qed
  qed
  from this [of b] assms(2) show ?thesis by simp
qed

lemma newMatrix_shaped: "shaped m n (newMatrix m n)"
  unfolding shaped_def newMatrix_def by (simp del: replicate.simps replicate_Suc)

lemma initBoundary_filled: "filledTo s t m n 1 0 (initBoundary m n (newMatrix m n))"
proof -
  let ?P1 = "\<lambda>k d. shaped m n d \<and> (\<forall>a < k. d ! a ! 0 = a)"
  let ?d1 = "fold (\<lambda>i d. setCell d i 0 i) [0..<m + 1] (newMatrix m n)"
  have "?P1 (m + 1) ?d1"
  proof (rule fold_upt_invariant [where P = ?P1])
    show "?P1 0 (newMatrix m n)" by (simp add: newMatrix_shaped)
    show "0 \<le> m + 1" by simp
    fix k y assume k: "k < m + 1" and y: "?P1 k y"
    then have "setCell y k 0 k ! a ! 0 = a" if "a < Suc k" for a
      using that by (cases "a = k") (simp_all add: setCell_nth [where m = m and n = n])
    with y show "?P1 (Suc k) (setCell y k 0 k)" by (simp add: setCell_shaped)
  qed
  then have 1: "shaped m n ?d1" "\<And>a. a \<le> m \<Longrightarrow> ?d1 ! a ! 0 = a" by simp_all
  let ?P2 = "\<lambda>k d. shaped m n d \<and> (\<forall>a \<le> m. d ! a ! 0 = a) \<and> (\<forall>b < k. d ! 0 ! b = b)"
  let ?d2 = "fold (\<lambda>j d. setCell d 0 j j) [0..<n + 1] ?d1"
  have "?P2 (n + 1) ?d2"
  proof (rule fold_upt_invariant [where P = ?P2])
    show "?P2 0 ?d1" using 1 by simp
    show "0 \<le> n + 1" by simp
    fix k y assume k: "k < n + 1" and y: "?P2 k y"
    then have a: "setCell y 0 k k ! a ! 0 = a" if "a \<le> m" for a
      using that by (cases "a = 0 \<and> k = 0") (simp_all add: setCell_nth [where m = m and n = n])
    from k y have b: "setCell y 0 k k ! 0 ! b = b" if "b < Suc k" for b
      using that by (cases "b = k") (simp_all add: setCell_nth [where m = m and n = n])
    from y a b show "?P2 (Suc k) (setCell y 0 k k)" by (simp add: setCell_shaped)
  qed
  then have 2: "shaped m n ?d2" "\<And>a. a \<le> m \<Longrightarrow> ?d2 ! a ! 0 = a"
    "\<And>b. b \<le> n \<Longrightarrow> ?d2 ! 0 ! b = b" by simp_all
  have "?d2 ! a ! b = cellSpec s t a b" if "a \<le> m" "b \<le> n" "a < 1 \<or> b = 0" for a b
    using that 2 by auto
  with 2(1) show ?thesis
    unfolding filledTo_def initBoundary_def by (simp del: upt_Suc)
qed

lemma fillCell_filled:
  assumes "filledTo s t m n i j dp" "1 \<le> i" "i \<le> m" "1 \<le> j" "j \<le> n"
  shows "filledTo s t m n i (Suc j) (fillCell s t i j dp)"
proof -
  obtain i' j' where ij: "i = Suc i'" "j = Suc j'"
    using assms(2,4) by (cases i; cases j) auto
  from assms have sh: "shaped m n dp" by (simp add: filledTo_def)
  have up: "dp ! i' ! j = cellSpec s t i' j" and left: "dp ! i ! j' = cellSpec s t i j'"
    and diag: "dp ! i' ! j' = cellSpec s t i' j'"
    using assms ij by (auto simp: filledTo_def)
  have new: "fillCell s t i j dp ! i ! j = cellSpec s t i j"
    using up left diag ij assms(3,5) sh
    by (simp add: fillCell_def setCell_nth [where m = m and n = n] min.commute min.left_commute)
  have old: "fillCell s t i j dp ! a ! b = dp ! a ! b" if "a \<le> m" "\<not> (a = i \<and> b = j)" for a b
    using that sh assms(3,5) by (auto simp: fillCell_def setCell_nth [where m = m and n = n])
  have "shaped m n (fillCell s t i j dp)"
    using sh by (simp add: fillCell_def setCell_shaped)
  moreover have "fillCell s t i j dp ! a ! b = cellSpec s t a b"
    if "a \<le> m" "b \<le> n" "a < i \<or> b = 0 \<or> (a = i \<and> b < Suc j)" for a b
  proof (cases "a = i \<and> b = j")
    case True
    with new show ?thesis by simp
  next
    case False
    with that assms(1,4) show ?thesis
      by (auto simp: old filledTo_def less_Suc_eq)
  qed
  ultimately show ?thesis by (simp add: filledTo_def)
qed

lemma filledTo_next_row:
  assumes "filledTo s t m n i (n + 1) dp"
  shows "filledTo s t m n (Suc i) 0 dp"
proof -
  have "dp ! a ! b = cellSpec s t a b" if "a \<le> m" "b \<le> n" "a < Suc i \<or> b = 0" for a b
  proof -
    from that have "a < i \<or> b = 0 \<or> (a = i \<and> b < n + 1)" by auto
    with assms that(1,2) show ?thesis unfolding filledTo_def by blast
  qed
  with assms show ?thesis unfolding filledTo_def by blast
qed

lemma fillRow_filled:
  assumes "filledTo s t m n i 1 dp" "1 \<le> i" "i \<le> m"
  shows "filledTo s t m n (Suc i) 0 (fillRow s t n i dp)"
proof -
  have "filledTo s t m n i (n + 1) (fold (fillCell s t i) [1..<n + 1] dp)"
    by (rule fold_upt_invariant [where P = "filledTo s t m n i"])
       (use assms in \<open>auto intro: fillCell_filled\<close>)
  then show ?thesis
    unfolding fillRow_def by (rule filledTo_next_row)
qed

lemma filledTo_restart: "filledTo s t m n i 0 dp \<Longrightarrow> filledTo s t m n i 1 dp"
  by (auto simp: filledTo_def)

lemma fillRows_filled:
  "fillRows now budget s t n [i..<m + 1] dp = Inr dp' \<Longrightarrow> filledTo s t m n i 0 dp \<Longrightarrow>
   1 \<le> i \<Longrightarrow> i \<le> m + 1 \<Longrightarrow> filledTo s t m n (m + 1) 0 dp'"
proof (induction "m + 1 - i" arbitrary: i dp)
  case 0
  then show ?case by simp
next
  case (Suc k)
  then have lt: "i \<le> m" by simp
  then have rows: "[i..<m + 1] = i # [Suc i..<m + 1]" by (simp add: upt_conv_Cons)
  from Suc.prems(1) rows have
    run: "fillRows now budget s t n [Suc i..<m + 1] (fillRow s t n i dp) = Inr dp'"
    by (simp split: if_splits)
  have "filledTo s t m n (Suc i) 0 (fillRow s t n i dp)"
    using Suc.prems lt by (intro fillRow_filled filledTo_restart)
  moreover have "k = m + 1 - Suc i" using Suc.hyps(2) by simp
  ultimately show ?case using Suc.hyps(1) [of "Suc i"] run lt by simp
qed

lemma fillRows_outcome:
  "fillRows now budget s t n rows dp =
     (if list_ex (\<lambda>i. now i - now 0 > budget) rows then Inl LevenshteinTimeout
      else Inr (fold (fillRow s t n) rows dp))"
  by (induction rows arbitrary: dp) auto

section \<open>The backtrace on a filled matrix\<close>

lemma filledTo_matrixOk: "filledTo s t m n (m + 1) 0 dp \<Longrightarrow> matrixOk s t m n dp"
  unfolding filledTo_def matrixOk_def by auto

lemma fillRows_matrixOk:
  assumes "fillRows now budget s t n [1..<m + 1] (initBoundary m n (newMatrix m n)) = Inr dp"
  shows "matrixOk s t m n dp"
proof -
  have "filledTo s t m n 1 0 (initBoundary m n (newMatrix m n))"
    by (rule initBoundary_filled)
  with assms have "filledTo s t m n (m + 1) 0 dp"
    by (rule fillRows_filled) simp_all
  then show ?thesis by (rule filledTo_matrixOk)
qed

lemma cellSpec_pos:
  "0 < i \<Longrightarrow> 0 < j \<Longrightarrow> cellSpec s t i j =
     (if s ! (i - 1) = t ! (j - 1) then cellSpec s t (i - 1) (j - 1)
      else 1 + min (cellSpec s t (i - 1) j) (min (cellSpec s t i (j - 1)) (cellSpec s t (i - 1) (j - 1))))"
  by (cases i; cases j) simp_all

lemma cellSpec_row0: "cellSpec s t 0 j = j"
  by simp

lemma backtraceStep_cases:
  assumes ok: "matrixOk s t m n dp" and le: "i \<le> m" "j \<le> n" and pos: "0 < i \<or> 0 < j"
  obtains
    (same) "0 < i" "0 < j" "s ! (i - 1) = t ! (j - 1)"
      "backtraceStep dp s t i j = Some (None, i - 1, j - 1)"
      "cellSpec s t i j = cellSpec s t (i - 1) (j - 1)"
  | (rep) "0 < i" "0 < j" "s ! (i - 1) \<noteq> t ! (j - 1)"
      "backtraceStep dp s t i j = Some (Some (replaceOp s t i j), i - 1, j - 1)"
      "cellSpec s t i j = cellSpec s t (i - 1) (j - 1) + 1"
  | (del) "0 < i" "j = 0 \<or> s ! (i - 1) \<noteq> t ! (j - 1) \<and> cellSpec s t i j \<le> cellSpec s t (i - 1) (j - 1)"
      "backtraceStep dp s t i j = Some (Some (deleteOp s i), i - 1, j)"
      "cellSpec s t i j = cellSpec s t (i - 1) j + 1"
  | (ins) "0 < j" "backtraceStep dp s t i j = Some (Some (insertOp t i j), i, j - 1)"
      "cellSpec s t i j = cellSpec s t i (j - 1) + 1"
proof -
  have rd: "dp ! i ! j = cellSpec s t i j" "dp ! (i - 1) ! j = cellSpec s t (i - 1) j"
    "dp ! i ! (j - 1) = cellSpec s t i (j - 1)" "dp ! (i - 1) ! (j - 1) = cellSpec s t (i - 1) (j - 1)"
    using ok le unfolding matrixOk_def by simp_all
  show ?thesis
  proof (cases "0 < i \<and> 0 < j")
    case True
    then have c: "cellSpec s t i j =
     (if s ! (i - 1) = t ! (j - 1) then cellSpec s t (i - 1) (j - 1)
      else 1 + min (cellSpec s t (i - 1) j) (min (cellSpec s t i (j - 1)) (cellSpec s t (i - 1) (j - 1))))"
      by (simp add: cellSpec_pos)
    show ?thesis
    proof (cases "s ! (i - 1) = t ! (j - 1)")
      case eq: True
      with True c show ?thesis by (intro same) (simp_all add: backtraceStep_def)
    next
      case ne: False
      have pick: "x = d + 1 \<or> (x \<noteq> d + 1 \<and> x = u + 1) \<or> (x \<noteq> d + 1 \<and> x \<noteq> u + 1 \<and> x = l + 1)"
        if "x = 1 + min u (min l d)" for x u l d :: nat
        using that by (cases "u \<le> l"; cases "u \<le> d"; cases "l \<le> d") (simp_all add: min_def)
      from c ne have "cellSpec s t i j =
          1 + min (cellSpec s t (i - 1) j) (min (cellSpec s t i (j - 1)) (cellSpec s t (i - 1) (j - 1)))"
        by simp
      from pick [OF this]
      consider "cellSpec s t i j = cellSpec s t (i - 1) (j - 1) + 1"
        | "cellSpec s t i j \<noteq> cellSpec s t (i - 1) (j - 1) + 1" "cellSpec s t i j = cellSpec s t (i - 1) j + 1"
        | "cellSpec s t i j \<noteq> cellSpec s t (i - 1) (j - 1) + 1" "cellSpec s t i j \<noteq> cellSpec s t (i - 1) j + 1"
          "cellSpec s t i j = cellSpec s t i (j - 1) + 1"
        by blast
      then show ?thesis
      proof cases
        case 1
        with True ne rd show ?thesis
          by (intro rep) (simp_all add: backtraceStep_def replaceOp_def)
      next
        case 2
        moreover from c ne have "cellSpec s t i j \<le> cellSpec s t (i - 1) (j - 1) + 1"
          by (simp add: min_def)
        ultimately show ?thesis using True ne rd
          by (intro del) (simp_all add: backtraceStep_def deleteOp_def)
      next
        case 3
        with True ne rd show ?thesis
          by (intro ins) (simp_all add: backtraceStep_def insertOp_def)
      qed
    qed
  next
    case False
    with pos consider "0 < i" "j = 0" | "i = 0" "0 < j" by auto
    then show ?thesis
    proof cases
      case 1
      then obtain i' where "i = Suc i'" by (cases i) auto
      with 1 rd show ?thesis
        by (intro del) (simp_all add: backtraceStep_def deleteOp_def)
    next
      case 2
      then obtain j' where "j = Suc j'" by (cases j) auto
      with 2 rd show ?thesis
        by (intro ins) (simp_all add: backtraceStep_def insertOp_def)
    qed
  qed
qed

lemma backtrace_returns:
  assumes ok: "matrixOk s t m n dp"
  shows "i \<le> m \<Longrightarrow> j \<le> n \<Longrightarrow>
         \<exists>ps. backtrace dp s t i j acc = Some (acc @ ps) \<and> length ps = cellSpec s t i j"
proof (induction "i + j" arbitrary: i j acc rule: less_induct)
  case less
  have ih: "\<exists>ps. backtrace dp s t i' j' acc' = Some (acc' @ ps) \<and> length ps = cellSpec s t i' j'"
    if "i' + j' < i + j" "i' \<le> i" "j' \<le> j" for i' j' acc'
    using less.hyps [OF that(1)] that(2,3) less.prems by simp
  show ?case
  proof (cases "0 < i \<or> 0 < j")
    case False
    then show ?thesis by (simp add: backtrace.simps)
  next
    case True
    from ok less.prems True show ?thesis
    proof (cases rule: backtraceStep_cases)
      case same
      from ih [of "i - 1" "j - 1" acc] same(1,2)
      obtain ps where "backtrace dp s t (i - 1) (j - 1) acc = Some (acc @ ps)"
        "length ps = cellSpec s t (i - 1) (j - 1)" by auto
      with same True show ?thesis by (subst backtrace.simps) simp
    next
      case rep
      from ih [of "i - 1" "j - 1" "acc @ [replaceOp s t i j]"] rep(1,2)
      obtain ps where "backtrace dp s t (i - 1) (j - 1) (acc @ [replaceOp s t i j]) =
          Some ((acc @ [replaceOp s t i j]) @ ps)"
        "length ps = cellSpec s t (i - 1) (j - 1)" by auto
      with rep True show ?thesis
        by (subst backtrace.simps) (simp add: exI [of _ "replaceOp s t i j # ps"])
    next
      case del
      from ih [of "i - 1" j "acc @ [deleteOp s i]"] del(1)
      obtain ps where "backtrace dp s t (i - 1) j (acc @ [deleteOp s i]) =
          Some ((acc @ [deleteOp s i]) @ ps)"
        "length ps = cellSpec s t (i - 1) j" by auto
      with del True show ?thesis
        by (subst backtrace.simps) (simp add: exI [of _ "deleteOp s i # ps"])
    next
      case ins
      from ih [of i "j - 1" "acc @ [insertOp t i j]"] ins(1)
      obtain ps where "backtrace dp s t i (j - 1) (acc @ [insertOp t i j]) =
          Some ((acc @ [insertOp t i j]) @ ps)"
        "length ps = cellSpec s t i (j - 1)" by auto
      with ins True show ?thesis
        by (subst backtrace.simps) (simp add: exI [of _ "insertOp t i j # ps"])
    qed
  qed
qed

lemma alignUnits_timeout:
  "timedOut now (effectiveTimeout options) (length s) \<Longrightarrow>
   alignUnits now options s t = Some (Inl LevenshteinTimeout)"
  by (simp add: alignUnits_def fillRows_outcome timedOut_def Let_def del: upt_Suc)

lemma alignUnits_returns:
  assumes "\<not> timedOut now (effectiveTimeout options) (length s)"
  shows "\<exists>ops. alignUnits now options s t = Some (Inr (cellSpec s t (length s) (length t), ops)) \<and>
           length ops = cellSpec s t (length s) (length t)"
proof -
  let ?m = "length s" and ?n = "length t"
  let ?dp = "fold (fillRow s t ?n) [1..<?m + 1] (initBoundary ?m ?n (newMatrix ?m ?n))"
  have run: "fillRows now (effectiveTimeout options) s t ?n [1..<?m + 1]
               (initBoundary ?m ?n (newMatrix ?m ?n)) = Inr ?dp"
    using assms by (simp add: fillRows_outcome timedOut_def del: upt_Suc)
  then have ok: "matrixOk s t ?m ?n ?dp" by (rule fillRows_matrixOk)
  from backtrace_returns [OF ok, of ?m ?n "[]"]
  obtain ps where ps: "backtrace ?dp s t ?m ?n [] = Some ps" "length ps = cellSpec s t ?m ?n"
    by auto
  from ok have "?dp ! ?m ! ?n = cellSpec s t ?m ?n" by (simp add: matrixOk_def)
  with run ps show ?thesis
    by (simp add: alignUnits_def Let_def del: upt_Suc)
qed

section \<open>The invariant computes the least edit cost\<close>

lemma lev_Nil2 [simp]: "lev xs [] = length xs"
  by (cases xs) simp_all

lemma lev_step_bounds:
  "lev xs ys \<le> Suc (lev (x # xs) ys) \<and> lev xs ys \<le> Suc (lev xs (y # ys)) \<and>
   lev (x # xs) ys \<le> Suc (lev xs ys) \<and> lev xs (y # ys) \<le> Suc (lev xs ys)"
proof (induction "length xs + length ys" arbitrary: xs ys x y rule: less_induct)
  case less
  note ih = less.hyps
  have D: "lev (x # xs) ys \<le> Suc (lev xs ys)"
  proof (cases ys)
    case Nil
    then show ?thesis by simp
  next
    case (Cons y' ys')
    with ih [of xs ys' x y'] show ?thesis by (auto simp: min_def)
  qed
  have C: "lev xs (y # ys) \<le> Suc (lev xs ys)"
  proof (cases xs)
    case Nil
    then show ?thesis by simp
  next
    case (Cons x' xs')
    with ih [of xs' ys x' y] show ?thesis by (auto simp: min_def)
  qed
  have A: "lev xs ys \<le> Suc (lev (x # xs) ys)"
  proof (cases ys)
    case Nil
    then show ?thesis by simp
  next
    case (Cons y' ys')
    with ih [of xs ys' x y'] show ?thesis by (auto simp: min_def)
  qed
  have B: "lev xs ys \<le> Suc (lev xs (y # ys))"
  proof (cases xs)
    case Nil
    then show ?thesis by simp
  next
    case (Cons x' xs')
    with ih [of xs' ys x' y] show ?thesis by (auto simp: min_def)
  qed
  from A B C D show ?case by simp
qed

lemma lev_reached: "\<exists>es. applyEdits es xs = Some ys \<and> editCost es = lev xs ys"
proof (induction xs ys rule: lev.induct)
  case (1 ys)
  have "applyEdits (map InsertUnit ys) [] = Some ys \<and> editCost (map InsertUnit ys) = length ys"
    by (induction ys) (simp_all add: editCost_def)
  then show ?case by auto
next
  case (2 x xs)
  have "applyEdits (replicate (length zs) DeleteUnit) zs = Some [] \<and>
        editCost (replicate (length zs) DeleteUnit :: 'a edit list) = length zs" for zs :: "'a list"
    by (induction zs) (simp_all add: editCost_def)
  from this [of "x # xs"] show ?case by (intro exI [of _ "replicate (length (x # xs)) DeleteUnit"]) simp
next
  case (3 x xs y ys)
  show ?case
  proof (cases "x = y")
    case True
    with 3 obtain es where "applyEdits es xs = Some ys" "editCost es = lev xs ys" by auto
    with True show ?thesis
      by (intro exI [of _ "KeepUnit # es"]) (simp add: editCost_def)
  next
    case False
    with 3 obtain e1 e2 e3 where
      e1: "applyEdits e1 xs = Some (y # ys)" "editCost e1 = lev xs (y # ys)" and
      e2: "applyEdits e2 (x # xs) = Some ys" "editCost e2 = lev (x # xs) ys" and
      e3: "applyEdits e3 xs = Some ys" "editCost e3 = lev xs ys" by blast
    have c1: "applyEdits (DeleteUnit # e1) (x # xs) = Some (y # ys) \<and>
              editCost (DeleteUnit # e1) = 1 + lev xs (y # ys)"
      using e1 by (simp add: editCost_def)
    have c2: "applyEdits (InsertUnit y # e2) (x # xs) = Some (y # ys) \<and>
              editCost (InsertUnit y # e2) = 1 + lev (x # xs) ys"
      using e2 by (simp add: editCost_def)
    have c3: "applyEdits (ReplaceUnit y # e3) (x # xs) = Some (y # ys) \<and>
              editCost (ReplaceUnit y # e3) = 1 + lev xs ys"
      using e3 by (simp add: editCost_def)
    have "lev (x # xs) (y # ys) = 1 + lev xs (y # ys) \<or> lev (x # xs) (y # ys) = 1 + lev (x # xs) ys
          \<or> lev (x # xs) (y # ys) = 1 + lev xs ys"
      using False by (simp add: min_def)
    with c1 c2 c3 show ?thesis by metis
  qed
qed

lemma lev_lower: "applyEdits es xs = Some ys \<Longrightarrow> lev xs ys \<le> editCost es"
proof (induction es arbitrary: xs ys)
  case Nil
  then show ?case by (cases xs) simp_all
next
  case (Cons e es)
  show ?case
  proof (cases e)
    case KeepUnit
    with Cons.prems obtain x xs' ys' where
      "xs = x # xs'" "ys = x # ys'" "applyEdits es xs' = Some ys'"
      by (cases xs) auto
    with Cons.IH [of xs' ys'] KeepUnit show ?thesis by (simp add: editCost_def)
  next
    case (ReplaceUnit y)
    with Cons.prems obtain x xs' ys' where
      "xs = x # xs'" "ys = y # ys'" "applyEdits es xs' = Some ys'"
      by (cases xs) auto
    with Cons.IH [of xs' ys'] ReplaceUnit show ?thesis by (simp add: editCost_def min_def)
  next
    case (InsertUnit y)
    with Cons.prems obtain ys' where ys: "ys = y # ys'" "applyEdits es xs = Some ys'"
      by auto
    moreover have "lev xs (y # ys') \<le> Suc (lev xs ys')"
      using lev_step_bounds [of xs ys' y y] by simp
    ultimately show ?thesis using Cons.IH [of xs ys'] InsertUnit by (simp add: editCost_def)
  next
    case DeleteUnit
    with Cons.prems obtain x xs' where xs: "xs = x # xs'" "applyEdits es xs' = Some ys"
      by (cases xs) auto
    moreover have "lev (x # xs') ys \<le> Suc (lev xs' ys)"
      using lev_step_bounds [of xs' ys x x] by simp
    ultimately show ?thesis using Cons.IH [of xs' ys] DeleteUnit by (simp add: editCost_def)
  qed
qed

lemma applyEdits_append:
  "applyEdits es1 xs1 = Some ys1 \<Longrightarrow> applyEdits es2 xs2 = Some ys2 \<Longrightarrow>
   applyEdits (es1 @ es2) (xs1 @ xs2) = Some (ys1 @ ys2)"
  by (induction es1 xs1 arbitrary: ys1 rule: applyEdits.induct) auto

lemma applyEdits_rev:
  "applyEdits es xs = Some ys \<Longrightarrow> applyEdits (rev es) (rev xs) = Some (rev ys)"
proof (induction es arbitrary: xs ys)
  case Nil
  then show ?case by (cases xs) simp_all
next
  case (Cons e es)
  show ?case
  proof (cases e)
    case KeepUnit
    with Cons.prems obtain x xs' ys' where
      *: "xs = x # xs'" "ys = x # ys'" "applyEdits es xs' = Some ys'"
      by (cases xs) auto
    from applyEdits_append [OF Cons.IH [OF *(3)], of "[KeepUnit]" "[x]" "[x]"] * KeepUnit
    show ?thesis by simp
  next
    case (ReplaceUnit y)
    with Cons.prems obtain x xs' ys' where
      *: "xs = x # xs'" "ys = y # ys'" "applyEdits es xs' = Some ys'"
      by (cases xs) auto
    from applyEdits_append [OF Cons.IH [OF *(3)], of "[ReplaceUnit y]" "[x]" "[y]"] * ReplaceUnit
    show ?thesis by simp
  next
    case (InsertUnit y)
    with Cons.prems obtain ys' where *: "ys = y # ys'" "applyEdits es xs = Some ys'"
      by auto
    from applyEdits_append [OF Cons.IH [OF *(2)], of "[InsertUnit y]" "[]" "[y]"] * InsertUnit
    show ?thesis by simp
  next
    case DeleteUnit
    with Cons.prems obtain x xs' where *: "xs = x # xs'" "applyEdits es xs' = Some ys"
      by (cases xs) auto
    from applyEdits_append [OF Cons.IH [OF *(2)], of "[DeleteUnit]" "[x]" "[]"] * DeleteUnit
    show ?thesis by simp
  qed
qed

lemma editCost_rev: "editCost (rev es) = editCost es"
  by (simp add: editCost_def flip: rev_filter)

lemma minimalEditCost_lev_rev: "minimalEditCost xs ys (lev (rev xs) (rev ys))"
proof -
  obtain es where es: "applyEdits es (rev xs) = Some (rev ys)" "editCost es = lev (rev xs) (rev ys)"
    using lev_reached by blast
  from applyEdits_rev [OF es(1)] es(2)
  have "applyEdits (rev es) xs = Some ys \<and> editCost (rev es) = lev (rev xs) (rev ys)"
    by (simp add: editCost_rev)
  moreover have "lev (rev xs) (rev ys) \<le> editCost es'" if "applyEdits es' xs = Some ys" for es'
    using lev_lower [OF applyEdits_rev [OF that]] by (simp add: editCost_rev)
  ultimately show ?thesis unfolding minimalEditCost_def by blast
qed

lemma cellSpec_lev:
  "i \<le> length s \<Longrightarrow> j \<le> length t \<Longrightarrow>
   cellSpec s t i j = lev (rev (take i s)) (rev (take j t))"
proof (induction s t i j rule: cellSpec.induct)
  case (1 s t j)
  then show ?case by simp
next
  case (2 s t i)
  then show ?case by simp
next
  case (3 s t i j)
  then have i: "i < length s" and j: "j < length t" by simp_all
  have ti: "rev (take (Suc i) s) = s ! i # rev (take i s)"
    and tj: "rev (take (Suc j) t) = t ! j # rev (take j t)"
    using i j by (simp_all add: take_Suc_conv_app_nth)
  show ?case
  proof (cases "s ! i = t ! j")
    case True
    with 3 i j show ?thesis by (simp add: ti tj del: rev_rev_ident)
  next
    case False
    with 3 i j have
      "cellSpec s t i (Suc j) = lev (rev (take i s)) (rev (take (Suc j) t))"
      "cellSpec s t (Suc i) j = lev (rev (take (Suc i) s)) (rev (take j t))"
      "cellSpec s t i j = lev (rev (take i s)) (rev (take j t))"
      by simp_all
    with False show ?thesis by (simp add: ti tj)
  qed
qed

lemma cellSpec_minimal: "minimalEditCost s t (cellSpec s t (length s) (length t))"
  using minimalEditCost_lev_rev [of s t] by (simp add: cellSpec_lev)

lemma cellSpec_diag: "cellSpec s s i i = 0"
  by (induction i) simp_all

lemma alignUnits_Inr:
  assumes "alignUnits now options s t = Some (Inr (d, ops))"
  shows "d = cellSpec s t (length s) (length t)" "length ops = d"
    "\<not> timedOut now (effectiveTimeout options) (length s)"
  using assms alignUnits_timeout [of now options s t] alignUnits_returns [of now options s t]
  by auto

lemma backtrace_trace:
  assumes ok: "matrixOk s t m n dp"
  shows "i \<le> m \<Longrightarrow> j \<le> n \<Longrightarrow>
         backtrace dp s t i j acc = Some (acc @ transitionTrace s t i j)"
proof (induction "i + j" arbitrary: i j acc rule: less_induct)
  case less
  have ih: "backtrace dp s t i' j' acc' = Some (acc' @ transitionTrace s t i' j')"
    if "i' + j' < i + j" "i' \<le> i" "j' \<le> j" for i' j' acc'
    using less.hyps [OF that(1)] that(2,3) less.prems by simp
  have rd: "dp ! i ! j = cellSpec s t i j" "dp ! (i - 1) ! j = cellSpec s t (i - 1) j"
    "dp ! i ! (j - 1) = cellSpec s t i (j - 1)" "dp ! (i - 1) ! (j - 1) = cellSpec s t (i - 1) (j - 1)"
    using ok less.prems unfolding matrixOk_def by simp_all
  show ?case
  proof (cases "0 < i \<or> 0 < j")
    case False
    then have "i = 0" "j = 0" by simp_all
    then show ?thesis by (simp add: backtrace.simps transitionTrace.simps [of s t 0 0])
  next
    case True
    from ok less.prems True show ?thesis
    proof (cases rule: backtraceStep_cases)
      case same
      then have "transitionTrace s t i j = transitionTrace s t (i - 1) (j - 1)"
        by (simp add: transitionTrace.simps [of s t i j])
      with ih [of "i - 1" "j - 1" acc] same True show ?thesis
        by (subst backtrace.simps) simp
    next
      case rep
      then have "transitionTrace s t i j = replaceOp s t i j # transitionTrace s t (i - 1) (j - 1)"
        by (simp add: transitionTrace.simps [of s t i j] replaceOp_def)
      with ih [of "i - 1" "j - 1" "acc @ [replaceOp s t i j]"] rep True show ?thesis
        by (subst backtrace.simps) simp
    next
      case del
      then have "transitionTrace s t i j = deleteOp s i # transitionTrace s t (i - 1) j"
        by (auto simp: transitionTrace.simps [of s t i j] deleteOp_def)
      with ih [of "i - 1" j "acc @ [deleteOp s i]"] del True show ?thesis
        by (subst backtrace.simps) simp
    next
      case ins
      have "\<not> (0 < i \<and> 0 < j \<and> s ! (i - 1) = t ! (j - 1))"
        "\<not> (0 < i \<and> 0 < j \<and> cellSpec s t i j = cellSpec s t (i - 1) (j - 1) + 1)"
        "\<not> (0 < i \<and> cellSpec s t i j = cellSpec s t (i - 1) j + 1)"
        using ins(2) rd by (auto simp: backtraceStep_def insertOp_def split: if_splits)
      with ins have "transitionTrace s t i j = insertOp t i j # transitionTrace s t i (j - 1)"
        by (auto simp: transitionTrace.simps [of s t i j] insertOp_def)
      with ih [of i "j - 1" "acc @ [insertOp t i j]"] ins True show ?thesis
        by (subst backtrace.simps) simp
    qed
  qed
qed

lemma alignUnits_trace:
  assumes "alignUnits now options s t = Some (Inr (d, xs))"
  shows "xs = rev (transitionTrace s t (length s) (length t))"
proof -
  let ?m = "length s" and ?n = "length t"
  from assms obtain dp where
    run: "fillRows now (effectiveTimeout options) s t ?n [1..<?m + 1]
            (initBoundary ?m ?n (newMatrix ?m ?n)) = Inr dp"
    by (auto simp: alignUnits_def Let_def split: sum.splits simp del: upt_Suc)
  then have ok: "matrixOk s t ?m ?n dp" by (rule fillRows_matrixOk)
  from backtrace_trace [OF ok, of ?m ?n "[]"]
  have "backtrace dp s t ?m ?n [] = Some (transitionTrace s t ?m ?n)" by simp
  with assms run show ?thesis by (simp add: alignUnits_def Let_def del: upt_Suc)
qed

lemma frozenClock_never_times_out: "\<not> timedOut frozenClock 5000 m"
  by (simp add: timedOut_def frozenClock_def list_ex_iff)

lemma alignUnits_clock_free:
  assumes "\<not> timedOut now (effectiveTimeout options) (length s)"
  shows "alignUnits now options s t = alignUnits frozenClock \<lparr>timeout = None\<rparr> s t"
proof -
  have "\<not> timedOut frozenClock (effectiveTimeout \<lparr>timeout = None\<rparr>) (length s)"
    by (simp add: effectiveTimeout_def frozenClock_never_times_out)
  with assms show ?thesis
    by (simp add: alignUnits_def fillRows_outcome timedOut_def Let_def del: upt_Suc)
qed

lemma calculateLevenshtein_clock_free:
  assumes "\<not> timedOut now (effectiveTimeout options) (length s)"
  shows "calculateLevenshtein now options s t =
         calculateLevenshtein frozenClock \<lparr>timeout = None\<rparr> s t"
  by (simp add: calculateLevenshtein_def alignUnits_clock_free [OF assms])

section \<open>The optimizer as a function of the remaining list\<close>

lemma mergeInserts_index: "nextIndex \<le> fst (mergeInserts ops pos nextIndex c)"
proof (induction ops pos nextIndex c rule: mergeInserts.induct)
  case (1 ops pos nextIndex c)
  show ?case
  proof (cases "nextIndex < length ops \<and> op_type (ops ! nextIndex) = Insert \<and>
                position (ops ! nextIndex) = pos")
    case True
    with "1.IH" have
      "nextIndex + 1 \<le> fst (mergeInserts ops pos (nextIndex + 1)
                                (c @ orEmpty (newChar (ops ! nextIndex))))"
      by simp
    with True show ?thesis by (subst mergeInserts.simps) simp
  next
    case False
    then show ?thesis by (subst mergeInserts.simps) auto
  qed
qed

lemma mergeInserts_measure:
  "i < length ops \<Longrightarrow>
   length ops - Suc (fst (mergeInserts ops pos (Suc i) c) - Suc 0) < length ops - i"
  using mergeInserts_index [of "Suc i" ops pos c] by simp

lemma insertRun_suffix: "\<exists>pre. xs = pre @ snd (insertRun pos xs)"
proof (induction xs)
  case Nil
  then show ?case by simp
next
  case (Cons x xs)
  then obtain pre where "xs = pre @ snd (insertRun pos xs)" by blast
  then have *: "x # xs = (x # pre) @ snd (insertRun pos xs)" by simp
  show ?case
  proof (cases "op_type x = Insert \<and> position x = pos")
    case True
    then have "snd (insertRun pos (x # xs)) = snd (insertRun pos xs)" by simp
    with * have "x # xs = (x # pre) @ snd (insertRun pos (x # xs))" by (simp only:)
    then show ?thesis by (rule exI)
  next
    case False
    then have "x # xs = [] @ snd (insertRun pos (x # xs))" by auto
    then show ?thesis by blast
  qed
qed

lemma insertRun_length: "length (snd (insertRun pos xs)) \<le> length xs"
  using insertRun_suffix [of xs pos] by (metis length_append le_add2)

lemma mergeInserts_insertRun:
  "k \<le> length ops \<Longrightarrow>
   mergeInserts ops pos k c =
     (length ops - length (snd (insertRun pos (drop k ops))), c @ fst (insertRun pos (drop k ops)))"
proof (induction ops pos k c rule: mergeInserts.induct)
  case (1 ops pos k c)
  show ?case
  proof (cases "k < length ops")
    case False
    with "1.prems" have "k = length ops" by simp
    then show ?thesis by (subst mergeInserts.simps) simp
  next
    case True
    then have d: "drop k ops = ops ! k # drop (Suc k) ops" by (simp add: Cons_nth_drop_Suc)
    show ?thesis
    proof (cases "op_type (ops ! k) = Insert \<and> position (ops ! k) = pos")
      case False
      with True d show ?thesis by (subst mergeInserts.simps) auto
    next
      case ins: True
      with True "1.IH" have
        "mergeInserts ops pos (k + 1) (c @ orEmpty (newChar (ops ! k))) =
           (length ops - length (snd (insertRun pos (drop (k + 1) ops))),
            (c @ orEmpty (newChar (ops ! k))) @ fst (insertRun pos (drop (k + 1) ops)))"
        by simp
      with True ins d show ?thesis by (subst mergeInserts.simps) simp
    qed
  qed
qed

lemma drop_to_rest:
  assumes "k \<le> length ops"
  shows "drop (length ops - length (snd (insertRun pos (drop k ops)))) ops =
         snd (insertRun pos (drop k ops))"
proof -
  obtain pre where pre: "drop k ops = pre @ snd (insertRun pos (drop k ops))"
    using insertRun_suffix by blast
  have "ops = take k ops @ drop k ops" by simp
  with pre have ops: "ops = (take k ops @ pre) @ snd (insertRun pos (drop k ops))" by simp
  then have "length ops - length (snd (insertRun pos (drop k ops))) = length (take k ops @ pre)"
    by (metis add_diff_cancel_right' length_append)
  with ops show ?thesis by (metis append_eq_conv_conj)
qed

lemma rest_index:
  assumes "k \<le> length ops"
  shows "k \<le> length ops - length (snd (insertRun pos (drop k ops)))"
    and "length ops - length (snd (insertRun pos (drop k ops))) \<le> length ops"
  using insertRun_length [of pos "drop k ops"] assms by simp_all

lemma lastInsert_snoc:
  "lastInsert (acc @ [x]) = (if op_type x = Insert then Some (position x) else None)"
  by (simp add: lastInsert_def)

lemma mergedInsert_cases:
  "mergedInsert x xs =
     \<lparr>op_type = Insert, position = position x, oldChar = None,
      newChar = Some (orEmpty (newChar x) @ fst (insertRun (position x) xs) @
                      (case snd (insertRun (position x) xs) of
                         [] \<Rightarrow> []
                       | r # rest \<Rightarrow> if op_type r = Replace \<and> position r = position x
                                    then orEmpty (newChar r) else []))\<rparr>"
  by (simp add: mergedInsert_def)

lemma optimizeLoop_insert_step:
  assumes i: "i < length ops" and ins: "op_type (ops ! i) = Insert"
    and rest: "rest = snd (insertRun (position (ops ! i)) (drop (Suc i) ops))"
    and nxt: "nxt = length ops - length rest"
  shows "optimizeLoop ops i acc =
           optimizeLoop ops (nxt - 1 + 1) (acc @ [mergedInsert (ops ! i) (drop (Suc i) ops)])"
    and "nxt - 1 + 1 = nxt" and "nxt \<le> length ops" and "drop nxt ops = rest"
    and "fst (mergeInserts ops (position (ops ! i)) (i + 1) (orEmpty (newChar (ops ! i)))) = nxt"
proof -
  let ?x = "ops ! i"
  let ?content = "orEmpty (newChar ?x) @ fst (insertRun (position ?x) (drop (Suc i) ops))"
  have si: "Suc i \<le> length ops" using i by simp
  have m: "mergeInserts ops (position ?x) (i + 1) (orEmpty (newChar ?x)) = (nxt, ?content)"
    using mergeInserts_insertRun [OF si, of "position ?x" "orEmpty (newChar ?x)"]
    by (simp add: rest nxt)
  then show "fst (mergeInserts ops (position ?x) (i + 1) (orEmpty (newChar ?x))) = nxt" by simp
  have nx: "Suc i \<le> nxt" "nxt \<le> length ops"
    using rest_index [OF si, of "position ?x"] by (simp_all add: rest nxt)
  then show "nxt - 1 + 1 = nxt" "nxt \<le> length ops" by simp_all
  show dr: "drop nxt ops = rest"
    unfolding nxt rest by (rule drop_to_rest [OF si])
  have top: "(nxt < length ops \<and> op_type (ops ! nxt) = Replace \<and>
              position (ops ! nxt) = position ?x) \<longleftrightarrow>
             (\<exists>r rs. rest = r # rs \<and> op_type r = Replace \<and> position r = position ?x)"
  proof (cases "nxt < length ops")
    case True
    then have "drop nxt ops = ops ! nxt # drop (Suc nxt) ops" by (simp add: Cons_nth_drop_Suc)
    with dr show ?thesis using True by auto
  next
    case False
    with dr have "rest = []" by simp
    with False show ?thesis by simp
  qed
  have extra: "(case rest of [] \<Rightarrow> []
               | r # rs \<Rightarrow> if op_type r = Replace \<and> position r = position ?x
                           then orEmpty (newChar r) else []) =
               (if nxt < length ops \<and> op_type (ops ! nxt) = Replace \<and>
                   position (ops ! nxt) = position ?x
                then orEmpty (newChar (ops ! nxt)) else [])"
  proof (cases rest)
    case Nil
    with top show ?thesis by auto
  next
    case (Cons r rs)
    with dr nx(2) have lt: "nxt < length ops" by (cases "nxt < length ops") auto
    then have "drop nxt ops = ops ! nxt # drop (Suc nxt) ops" by (simp add: Cons_nth_drop_Suc)
    with dr Cons have "ops ! nxt = r" by simp
    with Cons lt show ?thesis by simp
  qed
  have mi: "mergedInsert ?x (drop (Suc i) ops) =
     \<lparr>op_type = Insert, position = position ?x, oldChar = None,
      newChar = Some (?content @
                      (if nxt < length ops \<and> op_type (ops ! nxt) = Replace \<and>
                          position (ops ! nxt) = position ?x
                       then orEmpty (newChar (ops ! nxt)) else []))\<rparr>"
    unfolding mergedInsert_cases rest [symmetric] extra by simp
  show "optimizeLoop ops i acc =
           optimizeLoop ops (nxt - 1 + 1) (acc @ [mergedInsert ?x (drop (Suc i) ops)])"
    unfolding mi using i ins m by (subst optimizeLoop.simps) (simp add: Let_def)
qed

lemma optimizeLoop_optimizeFrom:
  "i \<le> length ops \<Longrightarrow>
   optimizeLoop ops i acc = acc @ optimizeFrom (lastInsert acc) (drop i ops)"
proof (induction "length ops - i" arbitrary: i acc rule: less_induct)
  case less
  show ?case
  proof (cases "i < length ops")
    case False
    with less.prems show ?thesis by (subst optimizeLoop.simps) simp
  next
    case True
    then have d: "drop i ops = ops ! i # drop (Suc i) ops" by (simp add: Cons_nth_drop_Suc)
    let ?x = "ops ! i"
    show ?thesis
    proof (cases "op_type ?x = Insert")
      case ins: True
      define rest where "rest = snd (insertRun (position ?x) (drop (Suc i) ops))"
      define nxt where "nxt = length ops - length rest"
      let ?ins = "mergedInsert ?x (drop (Suc i) ops)"
      note step = optimizeLoop_insert_step [OF True ins rest_def nxt_def]
      have gt: "i < nxt"
        using mergeInserts_index [of "i + 1" ops "position ?x" "orEmpty (newChar ?x)"] step(5)
        by simp
      have "optimizeLoop ops i acc = optimizeLoop ops nxt (acc @ [?ins])"
        using step(1) [of acc] step(2) by simp
      also have "\<dots> = (acc @ [?ins]) @ optimizeFrom (lastInsert (acc @ [?ins])) (drop nxt ops)"
        using less.hyps [of nxt "acc @ [?ins]"] gt step(3) True by simp
      also have "\<dots> = acc @ ?ins # optimizeFrom (Some (position ?x)) rest"
        by (simp add: step(4) lastInsert_snoc mergedInsert_def)
      also have "\<dots> = acc @ optimizeFrom (lastInsert acc) (drop i ops)"
        using ins by (simp add: d optimizeFrom.simps(2) rest_def)
      finally show ?thesis .
    next
      case other: False
      let ?has = "acc \<noteq> [] \<and> op_type (last acc) = Insert \<and> position (last acc) = position ?x"
      have h: "?has \<longleftrightarrow> lastInsert acc = Some (position ?x)"
        by (auto simp: lastInsert_def)
      have "optimizeLoop ops i acc = optimizeLoop ops (i + 1) (if ?has then acc else acc @ [?x])"
        using True other by (subst optimizeLoop.simps) (simp add: Let_def)
      also have "\<dots> = (if ?has then acc else acc @ [?x]) @
          optimizeFrom (lastInsert (if ?has then acc else acc @ [?x])) (drop (i + 1) ops)"
        using less.hyps [of "i + 1" "if ?has then acc else acc @ [?x]"] True by simp
      also have "\<dots> = acc @ optimizeFrom (lastInsert acc) (drop i ops)"
        using other h by (auto simp: d optimizeFrom.simps(2) lastInsert_snoc)
      finally show ?thesis .
    qed
  qed
qed

lemma optimizeOperations_optimizeFrom: "optimizeOperations ops = optimizeFrom None ops"
proof (cases ops)
  case Nil
  then show ?thesis by (simp add: optimizeOperations_def)
next
  case (Cons x xs)
  then show ?thesis
    using optimizeLoop_optimizeFrom [of 0 ops "[]"]
    by (simp add: optimizeOperations_def lastInsert_def)
qed

section \<open>The shape of the backtraced operations\<close>

lemma backtrace_backtraced:
  assumes ok: "matrixOk s t m n dp"
  shows "i \<le> m \<Longrightarrow> j \<le> n \<Longrightarrow>
         \<exists>ps. backtrace dp s t i j acc = Some (acc @ ps) \<and> backtraced s t i j ps"
proof (induction "i + j" arbitrary: i j acc rule: less_induct)
  case less
  have ih: "\<exists>ps. backtrace dp s t i' j' acc' = Some (acc' @ ps) \<and> backtraced s t i' j' ps"
    if "i' + j' < i + j" "i' \<le> i" "j' \<le> j" for i' j' acc'
    using less.hyps [OF that(1)] that(2,3) less.prems by simp
  show ?case
  proof (cases "0 < i \<or> 0 < j")
    case False
    then show ?thesis by (simp add: backtrace.simps origin)
  next
    case True
    from ok less.prems True show ?thesis
    proof (cases rule: backtraceStep_cases)
      case same
      from ih [of "i - 1" "j - 1" acc] same(1,2)
      obtain ps where ps: "backtrace dp s t (i - 1) (j - 1) acc = Some (acc @ ps)"
        "backtraced s t (i - 1) (j - 1) ps" by auto
      from backtraced.same [OF same(1,2,3) ps(2)] ps(1) same(4) True show ?thesis
        by (subst backtrace.simps) simp
    next
      case rep
      from ih [of "i - 1" "j - 1" "acc @ [replaceOp s t i j]"] rep(1,2)
      obtain ps where ps: "backtrace dp s t (i - 1) (j - 1) (acc @ [replaceOp s t i j]) =
          Some ((acc @ [replaceOp s t i j]) @ ps)"
        "backtraced s t (i - 1) (j - 1) ps" by auto
      from backtraced.rep [OF rep(1,2) ps(2)] ps(1) rep(4) True show ?thesis
        by (subst backtrace.simps) simp
    next
      case del
      from ih [of "i - 1" j "acc @ [deleteOp s i]"] del(1)
      obtain ps where ps: "backtrace dp s t (i - 1) j (acc @ [deleteOp s i]) =
          Some ((acc @ [deleteOp s i]) @ ps)"
        "backtraced s t (i - 1) j ps" by auto
      from del(2) have "j = 0 \<or> cellSpec s t i j \<le> cellSpec s t (i - 1) (j - 1)" by auto
      from backtraced.del [OF del(1) this del(4) ps(2)] ps(1) del(3) True show ?thesis
        by (subst backtrace.simps) simp
    next
      case ins
      from ih [of i "j - 1" "acc @ [insertOp t i j]"] ins(1)
      obtain ps where ps: "backtrace dp s t i (j - 1) (acc @ [insertOp t i j]) =
          Some ((acc @ [insertOp t i j]) @ ps)"
        "backtraced s t i (j - 1) ps" by auto
      from backtraced.ins [OF ins(1,3) ps(2)] ps(1) ins(2) True show ?thesis
        by (subst backtrace.simps) simp
    qed
  qed
qed

lemma alignUnits_backtraced:
  assumes "alignUnits now options s t = Some (Inr (d, ops))"
  shows "backtraced s t (length s) (length t) (rev ops)"
proof -
  let ?m = "length s" and ?n = "length t"
  let ?dp = "fold (fillRow s t ?n) [1..<?m + 1] (initBoundary ?m ?n (newMatrix ?m ?n))"
  from alignUnits_Inr(3) [OF assms]
  have run: "fillRows now (effectiveTimeout options) s t ?n [1..<?m + 1]
               (initBoundary ?m ?n (newMatrix ?m ?n)) = Inr ?dp"
    by (simp add: fillRows_outcome timedOut_def del: upt_Suc)
  then have ok: "matrixOk s t ?m ?n ?dp" by (rule fillRows_matrixOk)
  from backtrace_backtraced [OF ok, of ?m ?n "[]"]
  obtain ps where ps: "backtrace ?dp s t ?m ?n [] = Some ps" "backtraced s t ?m ?n ps"
    by auto
  with run assms have "ops = rev ps" by (simp add: alignUnits_def Let_def del: upt_Suc)
  with ps(2) show ?thesis by simp
qed

lemma backtraced_positions:
  "backtraced s t i j ps \<Longrightarrow>
   (\<forall>op \<in> set ps. if op_type op = Insert then position op \<le> i else position op < i) \<and>
   sorted_wrt precedes (rev ps)"
proof (induction rule: backtraced.induct)
  case origin
  then show ?case by simp
next
  case (same i j ps)
  then show ?case by (auto split: if_splits)
next
  case (rep i j ps)
  then show ?case
    by (auto simp: sorted_wrt_append precedes_def replaceOp_def split: if_splits)
next
  case (del i j ps)
  then show ?case
    by (auto simp: sorted_wrt_append precedes_def deleteOp_def split: if_splits)
next
  case (ins j i ps)
  then show ?case
    by (auto simp: sorted_wrt_append precedes_def insertOp_def split: if_splits)
qed

lemma alignUnits_positionOrdered:
  "alignUnits now options s t = Some (Inr (d, ops)) \<Longrightarrow> positionOrdered ops"
  using backtraced_positions [OF alignUnits_backtraced] by (simp add: positionOrdered_def)

section \<open>Lists the optimizer leaves as they are\<close>

lemma settled_fixed: "settled prev xs \<Longrightarrow> optimizeFrom prev xs = xs"
proof (induction xs arbitrary: prev)
  case Nil
  then show ?case by simp
next
  case (Cons x xs)
  show ?case
  proof (cases "op_type x = Insert")
    case False
    with Cons show ?thesis by (simp add: optimizeFrom.simps(2))
  next
    case True
    with Cons.prems have st: "settled (Some (position x)) xs" and
      nf: "oldChar x = None" "newChar x \<noteq> None" by simp_all
    have run: "insertRun (position x) xs = ([], xs)"
      using st by (cases xs) auto
    have "(case xs of [] \<Rightarrow> [] | r # rest \<Rightarrow>
             if op_type r = Replace \<and> position r = position x then orEmpty (newChar r) else []) = []"
      using st by (cases xs) auto
    with run nf True have "mergedInsert x xs = x"
      by (cases x) (auto simp: mergedInsert_def orEmpty_def)
    with True run Cons.IH [OF st] show ?thesis by (simp add: optimizeFrom.simps(2))
  qed
qed

lemma insertRun_rest_facts:
  assumes "sorted_wrt precedes (x # xs)" "op_type x = Insert"
  shows "sorted_wrt precedes (snd (insertRun (position x) xs))"
    and "\<forall>y \<in> set (snd (insertRun (position x) xs)).
           position x \<le> position y \<and> (op_type y = Insert \<longrightarrow> position x < position y)"
proof -
  obtain pre where pre: "xs = pre @ snd (insertRun (position x) xs)"
    using insertRun_suffix by blast
  let ?rest = "snd (insertRun (position x) xs)"
  from assms(1) have sx: "sorted_wrt precedes xs" by simp
  from assms(1) have ge: "\<forall>y \<in> set xs. position x \<le> position y"
    using assms(2) by (auto simp: precedes_def)
  from sx pre show sr: "sorted_wrt precedes ?rest"
    by (metis sorted_wrt_append)
  from pre have sub: "set ?rest \<subseteq> set xs" by (metis set_append sup_ge2)
  have hd: "\<not> (op_type r = Insert \<and> position r = position x)" if "?rest = r # rs" for r rs
    using that
  proof (induction xs)
    case Nil
    then show ?case by simp
  next
    case (Cons a as)
    then show ?case by (cases "op_type a = Insert \<and> position a = position x") auto
  qed
  show "\<forall>y \<in> set ?rest. position x \<le> position y \<and> (op_type y = Insert \<longrightarrow> position x < position y)"
  proof (cases ?rest)
    case Nil
    then show ?thesis by simp
  next
    case (Cons r rs)
    from hd [OF Cons] have r: "\<not> (op_type r = Insert \<and> position r = position x)" .
    from Cons sub ge have rge: "position x \<le> position r" by auto
    from sr Cons have later: "\<forall>y \<in> set rs. precedes r y" by simp
    have "position x \<le> position y \<and> (op_type y = Insert \<longrightarrow> position x < position y)"
      if "y \<in> set ?rest" for y
    proof (cases "y = r")
      case True
      with r rge show ?thesis by auto
    next
      case False
      with that Cons have "y \<in> set rs" by simp
      with later have "precedes r y" by simp
      with r rge show ?thesis by (auto simp: precedes_def split: if_splits)
    qed
    then show ?thesis by blast
  qed
qed

lemma optimizeFrom_settled:
  "sorted_wrt precedes xs \<Longrightarrow>
   (\<forall>p. prev = Some p \<longrightarrow>
      (\<forall>y \<in> set xs. p \<le> position y \<and> (op_type y = Insert \<longrightarrow> p < position y))) \<Longrightarrow>
   settled prev (optimizeFrom prev xs)"
proof (induction prev xs rule: optimizeFrom.induct)
  case (1 prev)
  then show ?case by simp
next
  case (2 prev x xs)
  show ?case
  proof (cases "op_type x = Insert")
    case True
    from insertRun_rest_facts [OF "2.prems"(1) True]
    have "settled (Some (position x))
            (optimizeFrom (Some (position x)) (snd (insertRun (position x) xs)))"
      by (intro "2.IH"(1) [OF True]) auto
    moreover from "2.prems"(2) True have "prev \<noteq> Some (position x)" by auto
    ultimately show ?thesis using True
      by (simp add: optimizeFrom.simps(2) mergedInsert_def)
  next
    case False
    from "2.prems"(1) have sx: "sorted_wrt precedes xs" by simp
    from "2.prems"(1) have gt: "\<forall>y \<in> set xs. position x < position y"
      using False by (auto simp: precedes_def)
    show ?thesis
    proof (cases "prev = Some (position x)")
      case True
      with gt have "\<forall>p. prev = Some p \<longrightarrow>
          (\<forall>y \<in> set xs. p \<le> position y \<and> (op_type y = Insert \<longrightarrow> p < position y))"
        by auto
      from "2.IH"(2) [OF False True sx this] False True show ?thesis
        by (simp add: optimizeFrom.simps(2))
    next
      case other: False
      have "settled None (optimizeFrom None xs)"
        by (rule "2.IH"(3) [OF False other sx]) simp
      with False other show ?thesis by (simp add: optimizeFrom.simps(2))
    qed
  qed
qed

section \<open>Replaying the backtraced operations\<close>

lemma take_drop_next:
  assumes "cur \<le> k" "k < length s"
  shows "take (Suc k - cur) (drop cur s) = take (k - cur) (drop cur s) @ [s ! k]"
proof -
  from assms have "k - cur < length (drop cur s)" by simp
  then have "take (Suc (k - cur)) (drop cur s) =
             take (k - cur) (drop cur s) @ [drop cur s ! (k - cur)]"
    by (rule take_Suc_conv_app_nth)
  moreover from assms have "drop cur s ! (k - cur) = s ! k" by simp
  moreover from assms have "Suc k - cur = Suc (k - cur)" by simp
  ultimately show ?thesis by simp
qed

lemma concat_take_next:
  "k < length t \<Longrightarrow> concat (take (Suc k) t) = concat (take k t) @ t ! k"
  by (simp add: take_Suc_conv_app_nth)

lemma replayed_same:
  assumes "replayed s t (i - 1) (j - 1) st" "0 < i" "0 < j" "i \<le> length s" "j \<le> length t"
    "s ! (i - 1) = t ! (j - 1)"
  shows "replayed s t i j st"
proof -
  obtain i' j' where ij: "i = Suc i'" "j = Suc j'" using assms(2,3) by (cases i; cases j) auto
  with assms have cur: "fst st \<le> i'" and
    eq: "snd st @ concat (take (i' - fst st) (drop (fst st) s)) = concat (take j' t)"
    and i': "i' < length s" and j': "j' < length t" and u: "s ! i' = t ! j'"
    by (simp_all add: replayed_def)
  have "snd st @ concat (take (Suc i' - fst st) (drop (fst st) s)) =
        (snd st @ concat (take (i' - fst st) (drop (fst st) s))) @ s ! i'"
    by (simp add: take_drop_next [OF cur i'])
  also have "\<dots> = concat (take (Suc j') t)"
    by (simp only: eq u concat_take_next [OF j'])
  finally show ?thesis using cur ij by (simp add: replayed_def)
qed

lemma replayed_replace:
  assumes "replayed s t (i - 1) (j - 1) st" "0 < i" "0 < j" "j \<le> length t"
  shows "replayed s t i j (replayStep s (convertOperation (replaceOp s t i j)) st)"
proof -
  obtain i' j' where ij: "i = Suc i'" "j = Suc j'" using assms(2,3) by (cases i; cases j) auto
  with assms have cur: "fst st \<le> i'" and
    eq: "snd st @ concat (take (i' - fst st) (drop (fst st) s)) = concat (take j' t)"
    and j': "j' < length t"
    by (simp_all add: replayed_def)
  have "replayStep s (convertOperation (replaceOp s t i j)) st =
        (Suc i', (snd st @ concat (take (i' - fst st) (drop (fst st) s))) @ t ! j')"
    using cur ij
    by (simp add: replayStep_def convertOperation_def replaceOp_def orEmpty_def Let_def max_def)
  also have "\<dots> = (Suc i', concat (take (Suc j') t))"
    by (simp only: eq concat_take_next [OF j'])
  finally show ?thesis using ij by (simp add: replayed_def)
qed

lemma replayed_delete:
  assumes "replayed s t (i - 1) j st" "0 < i"
  shows "replayed s t i j (replayStep s (convertOperation (deleteOp s i)) st)"
proof -
  obtain i' where ij: "i = Suc i'" using assms(2) by (cases i) auto
  with assms have cur: "fst st \<le> i'" and
    eq: "snd st @ concat (take (i' - fst st) (drop (fst st) s)) = concat (take j t)"
    by (simp_all add: replayed_def)
  have "replayStep s (convertOperation (deleteOp s i)) st =
        (Suc i', snd st @ concat (take (i' - fst st) (drop (fst st) s)))"
    using cur ij
    by (simp add: replayStep_def convertOperation_def deleteOp_def orEmpty_def Let_def max_def)
  with eq ij show ?thesis by (simp add: replayed_def)
qed

lemma replayed_insert:
  assumes "replayed s t i (j - 1) st" "0 < j" "j \<le> length t"
  shows "replayed s t i j (replayStep s (convertOperation (insertOp t i j)) st)"
proof -
  obtain j' where ij: "j = Suc j'" using assms(2) by (cases j) auto
  with assms have cur: "fst st \<le> i" and
    eq: "snd st @ concat (take (i - fst st) (drop (fst st) s)) = concat (take j' t)"
    and j': "j' < length t"
    by (simp_all add: replayed_def)
  have "replayStep s (convertOperation (insertOp t i j)) st =
        (i, (snd st @ concat (take (i - fst st) (drop (fst st) s))) @ t ! j')"
    using cur ij
    by (simp add: replayStep_def convertOperation_def insertOp_def orEmpty_def Let_def max_def)
  also have "\<dots> = (i, concat (take (Suc j') t))"
    by (simp only: eq concat_take_next [OF j'])
  finally show ?thesis using ij by (simp add: replayed_def)
qed

lemma backtraced_replayed:
  "backtraced s t i j ps \<Longrightarrow> i \<le> length s \<Longrightarrow> j \<le> length t \<Longrightarrow>
   replayed s t i j (foldr (replayStep s) (map convertOperation ps) (0, []))"
proof (induction rule: backtraced.induct)
  case origin
  then show ?case by (simp add: replayed_def)
next
  case (same i j ps)
  then have "replayed s t (i - 1) (j - 1) (foldr (replayStep s) (map convertOperation ps) (0, []))"
    by simp
  from replayed_same [OF this same(1,2) same.prems same(3)] show ?case .
next
  case (rep i j ps)
  then have "replayed s t (i - 1) (j - 1) (foldr (replayStep s) (map convertOperation ps) (0, []))"
    by simp
  from replayed_replace [OF this rep(1,2) rep.prems(2)] show ?case by simp
next
  case (del i j ps)
  then have "replayed s t (i - 1) j (foldr (replayStep s) (map convertOperation ps) (0, []))"
    by simp
  from replayed_delete [OF this del(1)] show ?case by simp
next
  case (ins j i ps)
  then have "replayed s t i (j - 1) (foldr (replayStep s) (map convertOperation ps) (0, []))"
    by simp
  from replayed_insert [OF this ins(1) ins.prems(2)] show ?case by simp
qed

lemma positionOrdered_sorted:
  "positionOrdered ops \<Longrightarrow> sorted (map diffPosition (map convertOperation ops))"
proof -
  assume "positionOrdered ops"
  then have "sorted_wrt (\<lambda>a b. position a \<le> position b) ops"
    unfolding positionOrdered_def
    by (rule sorted_wrt_mono_rel [rotated]) (auto simp: precedes_def split: if_splits)
  then have "sorted (map position ops)" by (simp add: sorted_map)
  moreover have "diffPosition (convertOperation x) = position x" for x
    by (simp add: convertOperation_def split: op_type.splits)
  then have "map diffPosition (map convertOperation ops) = map position ops"
    by (induction ops) simp_all
  ultimately show ?thesis by (simp only:)
qed

lemma replay_alignment:
  assumes "alignUnits now options s t = Some (Inr (d, ops))"
  shows "replay (convertOperationsToDiffRecords ops) s = concat t"
proof -
  let ?st = "fold (replayStep s) (map convertOperation ops) (0, [])"
  from alignUnits_backtraced [OF assms]
  have "replayed s t (length s) (length t)
          (foldr (replayStep s) (map convertOperation (rev ops)) (0, []))"
    by (rule backtraced_replayed) simp_all
  then have "replayed s t (length s) (length t) ?st"
    by (simp add: foldr_conv_fold rev_map)
  then have "snd ?st @ concat (drop (fst ?st) s) = concat t"
    by (simp add: replayed_def)
  moreover have "sort_key diffPosition (map convertOperation ops) = map convertOperation ops"
    by (rule sort_key_id_if_sorted)
       (rule positionOrdered_sorted [OF alignUnits_positionOrdered [OF assms]])
  ultimately show ?thesis
    by (simp add: replay_def convertOperationsToDiffRecords_def Let_def)
qed

lemma adjacentOps_iff:
  "adjacentOps P xs \<longleftrightarrow> (\<exists>pre a b post. xs = pre @ a # b # post \<and> P a b)"
proof
  show "adjacentOps P xs \<Longrightarrow> \<exists>pre a b post. xs = pre @ a # b # post \<and> P a b"
  proof (induction P xs rule: adjacentOps.induct)
    case (1 P a b rest)
    show ?case
    proof (cases "P a b")
      case True
      then have "a # b # rest = [] @ a # b # rest \<and> P a b" by simp
      then show ?thesis by blast
    next
      case False
      with 1 obtain pre c d post where "b # rest = pre @ c # d # post" "P c d" by auto
      then have "a # b # rest = (a # pre) @ c # d # post \<and> P c d" by simp
      then show ?thesis by blast
    qed
  qed simp_all
next
  assume "\<exists>pre a b post. xs = pre @ a # b # post \<and> P a b"
  then obtain pre a b post where xs: "xs = pre @ a # b # post" and p: "P a b" by blast
  have "adjacentOps P (pre @ a # b # post)"
  proof (induction pre)
    case Nil
    with p show ?case by simp
  next
    case (Cons c pre)
    then show ?case by (cases "pre @ a # b # post") auto
  qed
  with xs show "adjacentOps P xs" by simp
qed

lemma adjacentOps_snoc:
  "adjacentOps P (xs @ [b]) \<longleftrightarrow> adjacentOps P xs \<or> (xs \<noteq> [] \<and> P (last xs) b)"
proof (induction xs)
  case Nil
  then show ?case by simp
next
  case (Cons a xs)
  then show ?case by (cases xs) auto
qed

lemma adjacentOps_suffix: "adjacentOps P ys \<Longrightarrow> adjacentOps P (xs @ ys)"
  unfolding adjacentOps_iff by (metis append.assoc)

lemma adjacentOps_tail: "\<not> adjacentOps P (x # xs) \<Longrightarrow> \<not> adjacentOps P xs"
  using adjacentOps_suffix [of P xs "[x]"] by auto

lemma backtraced_no_insert_delete:
  "backtraced s t i j ps \<Longrightarrow>
   \<not> adjacentOps insertThenDelete (rev ps) \<and>
   (\<forall>b rest. ps = b # rest \<and> op_type b = Insert \<and> position b = i \<longrightarrow>
      0 < j \<and> cellSpec s t i j = cellSpec s t i (j - 1) + 1)"
proof (induction rule: backtraced.induct)
  case origin
  then show ?case by simp
next
  case (same i j ps)
  from backtraced_positions [OF same(4)] same(1)
  have "\<forall>op \<in> set ps. op_type op = Insert \<longrightarrow> position op < i"
    by (auto split: if_splits)
  then have "\<not> (ps = b # rest \<and> op_type b = Insert \<and> position b = i)" for b rest
    by auto
  with same.IH show ?case by blast
next
  case (rep i j ps)
  then show ?case
    by (auto simp: adjacentOps_snoc insertThenDelete_def replaceOp_def)
next
  case (del i j ps)
  have "\<not> (ps \<noteq> [] \<and> insertThenDelete (last (rev ps)) (deleteOp s i))"
  proof
    assume a: "ps \<noteq> [] \<and> insertThenDelete (last (rev ps)) (deleteOp s i)"
    then obtain b rest where ps: "ps = b # rest" by (cases ps) auto
    with a have "op_type b = Insert" "position b = i - 1"
      by (simp_all add: insertThenDelete_def deleteOp_def)
    with del.IH ps have "0 < j" "cellSpec s t (i - 1) j = cellSpec s t (i - 1) (j - 1) + 1"
      by auto
    with del(2,3) show False by simp
  qed
  with del.IH show ?case
    by (auto simp: adjacentOps_snoc deleteOp_def)
next
  case (ins j i ps)
  then show ?case
    by (auto simp: adjacentOps_snoc insertThenDelete_def insertOp_def)
qed

lemma insertThenOther_split:
  "adjacentOps insertThenOther ops \<longleftrightarrow>
   insertThenReplace ops \<or> adjacentOps insertThenDelete ops"
proof -
  have "insertThenOther a b \<longleftrightarrow>
        (op_type a = Insert \<and> op_type b = Replace \<and> position b = position a) \<or>
        insertThenDelete a b" for a b
    by (cases "op_type b") (auto simp: insertThenOther_def insertThenDelete_def)
  then show ?thesis
    unfolding insertThenReplace_def adjacentOps_iff by blast
qed

lemma alignUnits_no_collision:
  assumes "alignUnits now options s t = Some (Inr (d, ops))" "\<not> insertThenReplace ops"
  shows "\<not> adjacentOps insertThenOther ops"
  using backtraced_no_insert_delete [OF alignUnits_backtraced [OF assms(1)]] assms(2)
  by (simp add: insertThenOther_split)

section \<open>Replaying the optimized operations\<close>

lemma insertRun_decompose:
  "\<exists>run. xs = run @ snd (insertRun p xs) \<and>
         (\<forall>y \<in> set run. op_type y = Insert \<and> position y = p) \<and>
         fst (insertRun p xs) = concat (map (\<lambda>y. orEmpty (newChar y)) run)"
proof (induction xs)
  case Nil
  then show ?case by simp
next
  case (Cons x xs)
  show ?case
  proof (cases "op_type x = Insert \<and> position x = p")
    case False
    then have "x # xs = [] @ snd (insertRun p (x # xs)) \<and>
               (\<forall>y \<in> set []. op_type y = Insert \<and> position y = p) \<and>
               fst (insertRun p (x # xs)) = concat (map (\<lambda>y. orEmpty (newChar y)) [])"
      by auto
    then show ?thesis by blast
  next
    case True
    from Cons obtain run where run: "xs = run @ snd (insertRun p xs)"
      "\<forall>y \<in> set run. op_type y = Insert \<and> position y = p"
      "fst (insertRun p xs) = concat (map (\<lambda>y. orEmpty (newChar y)) run)" by blast
    from True have e: "snd (insertRun p (x # xs)) = snd (insertRun p xs)"
      "fst (insertRun p (x # xs)) = orEmpty (newChar x) @ fst (insertRun p xs)" by simp_all
    have "x # xs = (x # run) @ snd (insertRun p (x # xs))"
      unfolding e append_Cons using run(1) by (rule arg_cong)
    moreover have "\<forall>y \<in> set (x # run). op_type y = Insert \<and> position y = p"
      using True run(2) by simp
    moreover have "fst (insertRun p (x # xs)) = concat (map (\<lambda>y. orEmpty (newChar y)) (x # run))"
      unfolding e run(3) by simp
    ultimately show ?thesis by blast
  qed
qed

lemma convert_insert:
  "op_type y = Insert \<Longrightarrow> convertOperation y = addRecord (position y) (orEmpty (newChar y))"
  by (simp add: convertOperation_def addRecord_def)

lemma replayStep_add:
  "replayStep s (addRecord p c) st =
     (max (fst st) p, snd st @ concat (take (p - fst st) (drop (fst st) s)) @ c)"
  by (simp add: replayStep_def addRecord_def Let_def)

lemma replayStep_add_add:
  "replayStep s (addRecord p c2) (replayStep s (addRecord p c1) st) =
   replayStep s (addRecord p (c1 @ c2)) st"
  unfolding replayStep_add by simp

lemma fold_inserts:
  "\<forall>y \<in> set run. op_type y = Insert \<and> position y = p \<Longrightarrow>
   fold (replayStep s) (map convertOperation run) (replayStep s (addRecord p c) st) =
   replayStep s (addRecord p (c @ concat (map (\<lambda>y. orEmpty (newChar y)) run))) st"
proof (induction run arbitrary: c)
  case Nil
  show ?case by simp
next
  case (Cons y run)
  from Cons.prems have y: "convertOperation y = addRecord p (orEmpty (newChar y))"
    using convert_insert [of y] by simp
  from Cons.prems have rest: "\<forall>z \<in> set run. op_type z = Insert \<and> position z = p" by simp
  have "fold (replayStep s) (map convertOperation (y # run)) (replayStep s (addRecord p c) st) =
        fold (replayStep s) (map convertOperation run)
          (replayStep s (addRecord p (orEmpty (newChar y))) (replayStep s (addRecord p c) st))"
    by (simp add: y)
  also have "\<dots> = fold (replayStep s) (map convertOperation run)
          (replayStep s (addRecord p (c @ orEmpty (newChar y))) st)"
    by (simp only: replayStep_add_add)
  also have "\<dots> = replayStep s (addRecord p ((c @ orEmpty (newChar y)) @
          concat (map (\<lambda>y. orEmpty (newChar y)) run))) st"
    by (rule Cons.IH [OF rest])
  finally show ?case by simp
qed

lemma optimizeFrom_replay:
  "\<not> adjacentOps insertThenOther xs \<Longrightarrow>
   (\<forall>p y rest. prev = Some p \<and> xs = y # rest \<longrightarrow> \<not> (op_type y \<noteq> Insert \<and> position y = p)) \<Longrightarrow>
   fold (replayStep s) (map convertOperation (optimizeFrom prev xs)) st =
   fold (replayStep s) (map convertOperation xs) st"
proof (induction prev xs arbitrary: st rule: optimizeFrom.induct)
  case (1 prev)
  then show ?case by simp
next
  case (2 prev x xs)
  show ?case
  proof (cases "op_type x = Insert")
    case True
    let ?p = "position x"
    define rest where "rest = snd (insertRun ?p xs)"
    obtain run where run: "xs = run @ rest"
      "\<forall>y \<in> set run. op_type y = Insert \<and> position y = ?p"
      "fst (insertRun ?p xs) = concat (map (\<lambda>y. orEmpty (newChar y)) run)"
      unfolding rest_def using insertRun_decompose by blast
    have lastins: "op_type (last (x # run)) = Insert \<and> position (last (x # run)) = ?p"
      using True run(2) by (cases run rule: rev_cases) auto
    have whole: "x # xs = (x # run) @ rest" using run(1) by simp
    have nohead: "\<not> (op_type r \<noteq> Insert \<and> position r = ?p)" if "rest = r # rs" for r rs
    proof
      assume a: "op_type r \<noteq> Insert \<and> position r = ?p"
      have "x # run = butlast (x # run) @ [last (x # run)]" by simp
      with whole that have "x # xs = butlast (x # run) @ last (x # run) # r # rs"
        by (metis append.assoc append_Cons append_Nil)
      moreover have "insertThenOther (last (x # run)) r"
        using lastins a by (simp add: insertThenOther_def)
      ultimately have "adjacentOps insertThenOther (x # xs)"
        unfolding adjacentOps_iff by blast
      with "2.prems"(1) show False by simp
    qed
    then have extra: "(case rest of [] \<Rightarrow> []
               | r # rs \<Rightarrow> if op_type r = Replace \<and> position r = ?p
                           then orEmpty (newChar r) else []) = []"
      by (cases rest) auto
    have mi: "convertOperation (mergedInsert x xs) =
              addRecord ?p (orEmpty (newChar x) @ concat (map (\<lambda>y. orEmpty (newChar y)) run))"
      unfolding mergedInsert_cases rest_def [symmetric] extra run(3) [symmetric]
      by (simp add: convertOperation_def addRecord_def orEmpty_def)
    have nr: "\<not> adjacentOps insertThenOther rest"
      using "2.prems"(1) adjacentOps_suffix [of insertThenOther rest "x # run"]
      unfolding whole by blast
    have "fold (replayStep s) (map convertOperation (optimizeFrom prev (x # xs))) st =
          fold (replayStep s) (map convertOperation (optimizeFrom (Some ?p) rest))
            (replayStep s (convertOperation (mergedInsert x xs)) st)"
      using True by (simp add: optimizeFrom.simps(2) rest_def)
    also have "\<dots> = fold (replayStep s) (map convertOperation rest)
            (replayStep s (convertOperation (mergedInsert x xs)) st)"
      unfolding rest_def
      by (rule "2.IH"(1) [OF True]) (use nr nohead in \<open>auto simp: rest_def\<close>)
    also have "replayStep s (convertOperation (mergedInsert x xs)) st =
          fold (replayStep s) (map convertOperation run) (replayStep s (convertOperation x) st)"
      using fold_inserts [OF run(2), of s "orEmpty (newChar x)" st] True
      by (simp add: mi convert_insert)
    also have "fold (replayStep s) (map convertOperation rest)
            (fold (replayStep s) (map convertOperation run) (replayStep s (convertOperation x) st)) =
          fold (replayStep s) (map convertOperation ((x # run) @ rest)) st"
      by simp
    finally show ?thesis unfolding whole .
  next
    case False
    with "2.prems"(2) have np: "prev \<noteq> Some (position x)" by auto
    from "2.prems"(1) have nt: "\<not> adjacentOps insertThenOther xs" by (rule adjacentOps_tail)
    have "fold (replayStep s) (map convertOperation (optimizeFrom None xs)) st' =
          fold (replayStep s) (map convertOperation xs) st'" for st'
      by (rule "2.IH"(3) [OF False np nt]) simp
    with False np show ?thesis by (simp add: optimizeFrom.simps(2))
  qed
qed

lemma optimizeFrom_sorted:
  "sorted (map position xs) \<Longrightarrow>
   sorted (map position (optimizeFrom prev xs)) \<and>
   set (map position (optimizeFrom prev xs)) \<subseteq> set (map position xs)"
proof (induction prev xs rule: optimizeFrom.induct)
  case (1 prev)
  then show ?case by simp
next
  case (2 prev x xs)
  show ?case
  proof (cases "op_type x = Insert")
    case True
    define rest where "rest = snd (insertRun (position x) xs)"
    obtain pre where pre: "xs = pre @ rest"
      unfolding rest_def using insertRun_suffix by blast
    from "2.prems" have sx: "sorted (map position xs)"
      and ge: "\<forall>p \<in> set (map position xs). position x \<le> p" by simp_all
    from sx pre have "sorted (map position rest)"
      by (simp add: sorted_append)
    from "2.IH"(1) [OF True this [unfolded rest_def]]
    have ih: "sorted (map position (optimizeFrom (Some (position x)) rest))"
      "set (map position (optimizeFrom (Some (position x)) rest)) \<subseteq> set (map position rest)"
      by (simp_all add: rest_def)
    from ih(2) pre
    have sub: "set (map position (optimizeFrom (Some (position x)) rest)) \<subseteq> set (map position xs)"
      by auto
    with ge have "\<forall>p \<in> set (map position (optimizeFrom (Some (position x)) rest)). position x \<le> p"
      by blast
    with ih(1) sub True show ?thesis
      by (auto simp: optimizeFrom.simps(2) mergedInsert_def rest_def)
  next
    case False
    from "2.prems" have sx: "sorted (map position xs)"
      and ge: "\<forall>p \<in> set (map position xs). position x \<le> p" by simp_all
    show ?thesis
    proof (cases "prev = Some (position x)")
      case True
      from "2.IH"(2) [OF False True sx] False True show ?thesis
        by (auto simp: optimizeFrom.simps(2))
    next
      case other: False
      from "2.IH"(3) [OF False other sx] ge False other show ?thesis
        by (auto simp: optimizeFrom.simps(2))
    qed
  qed
qed

lemma replay_optimized:
  assumes "alignUnits now options s t = Some (Inr (d, ops))" "\<not> insertThenReplace ops"
  shows "replay (convertOperationsToDiffRecords (optimizeOperations ops)) s = concat t"
proof -
  let ?opt = "optimizeFrom None ops"
  have "diffPosition (convertOperation x) = position x" for x
    by (simp add: convertOperation_def split: op_type.splits)
  then have mp: "map diffPosition (map convertOperation xs) = map position xs" for xs
    by (induction xs) simp_all
  have so: "sorted (map position ops)"
    using positionOrdered_sorted [OF alignUnits_positionOrdered [OF assms(1)]]
    by (simp only: mp)
  from optimizeFrom_sorted [OF so, of None]
  have "sorted (map diffPosition (map convertOperation ?opt))" by (simp only: mp)
  then have id1: "sort_key diffPosition (map convertOperation ?opt) = map convertOperation ?opt"
    by (rule sort_key_id_if_sorted)
  from so have "sorted (map diffPosition (map convertOperation ops))" by (simp only: mp)
  then have id2: "sort_key diffPosition (map convertOperation ops) = map convertOperation ops"
    by (rule sort_key_id_if_sorted)
  have "fold (replayStep s) (map convertOperation ?opt) (0, []) =
        fold (replayStep s) (map convertOperation ops) (0, [])"
    by (rule optimizeFrom_replay [OF alignUnits_no_collision [OF assms]]) simp
  then have "replay (convertOperationsToDiffRecords (optimizeOperations ops)) s =
             replay (convertOperationsToDiffRecords ops) s"
    by (simp add: replay_def convertOperationsToDiffRecords_def optimizeOperations_optimizeFrom
          id1 id2)
  with replay_alignment [OF assms(1)] show ?thesis by simp
qed

lemma concat_splitIntoChars: "concat (splitIntoChars x) = x"
  by (induction x rule: splitIntoChars.induct) simp_all

lemma concat_splitWords: "concat (splitWords piece run x) = piece @ run @ x"
  by (induction x arbitrary: piece run) simp_all

lemma concat_splitLines: "concat (splitLines piece x) = piece @ x"
  by (induction x arbitrary: piece) simp_all

lemma concat_getSplitFunction: "concat (getSplitFunction p x) = x"
  by (simp add: getSplitFunction_def concat_splitIntoChars concat_splitWords concat_splitLines
        split: option.splits precision.splits)

lemma getSplitFunction_default:
  "getSplitFunction (case p of None \<Rightarrow> Some ByCharacter | Some q \<Rightarrow> Some q) = getSplitFunction p"
  by (simp add: getSplitFunction_def split: option.splits)

lemma rawAlignment_alignUnits:
  assumes "alignUnits now options s t = Some (Inr (d, ops))"
  shows "rawAlignment s t = ops"
proof -
  from alignUnits_Inr(3) [OF assms]
  have "alignUnits frozenClock \<lparr>timeout = None\<rparr> s t = alignUnits now options s t"
    by (rule alignUnits_clock_free [symmetric])
  with assms show ?thesis
    by (simp add: rawAlignment_def calculateLevenshteinUnoptimized_def)
qed

section \<open>Rounding to a double\<close>

lemma roundHalfEven_floor: "\<lfloor>q\<rfloor> \<le> roundHalfEven q" "roundHalfEven q \<le> \<lfloor>q\<rfloor> + 1"
  by (simp_all add: roundHalfEven_def Let_def)

lemma roundHalfEven_error: "\<bar>of_int (roundHalfEven q) - q\<bar> \<le> 1 / 2"
proof -
  define f where "f = \<lfloor>q\<rfloor>"
  have "of_int f \<le> q" "q < of_int f + 1" unfolding f_def by linarith+
  then show ?thesis
    unfolding roundHalfEven_def Let_def f_def [symmetric] by (auto simp: abs_if)
qed

lemma roundHalfEven_of_int: "roundHalfEven (of_int k) = k"
  by (simp add: roundHalfEven_def)

lemma roundHalfEven_mono:
  assumes "q \<le> q'"
  shows "roundHalfEven q \<le> roundHalfEven q'"
proof (cases "\<lfloor>q\<rfloor> = \<lfloor>q'\<rfloor>")
  case True
  with assms show ?thesis by (auto simp: roundHalfEven_def Let_def)
next
  case False
  with floor_mono [OF assms] have "\<lfloor>q\<rfloor> + 1 \<le> \<lfloor>q'\<rfloor>" by simp
  with roundHalfEven_floor(2) [of q] roundHalfEven_floor(1) [of q'] show ?thesis by simp
qed

lemma roundHalfEven_ge: "of_int n \<le> q \<Longrightarrow> n \<le> roundHalfEven q"
  using roundHalfEven_mono [of "of_int n" q] by (simp add: roundHalfEven_of_int)

lemma roundHalfEven_le: "q \<le> of_int n \<Longrightarrow> roundHalfEven q \<le> n"
  using roundHalfEven_mono [of q "of_int n"] by (simp add: roundHalfEven_of_int)

lemma bitlen_powi:
  assumes "0 < p"
  shows "2 powi (bitlen p - 1) \<le> (of_int p :: rat)" "(of_int p :: rat) < 2 powi bitlen p"
proof -
  from assms have b: "1 \<le> bitlen p" by (simp add: bitlen_alt_def)
  from bitlen_bounds [OF assms]
  have "(of_int (2 ^ nat (bitlen p - 1)) :: rat) \<le> of_int p"
    "(of_int p :: rat) < of_int (2 ^ nat (bitlen p))"
    by (simp_all only: of_int_le_iff of_int_less_iff)
  with b show "2 powi (bitlen p - 1) \<le> (of_int p :: rat)" "(of_int p :: rat) < 2 powi bitlen p"
    by (simp_all add: power_int_def)
qed

lemma binaryExponent_bounds:
  assumes "0 < x"
  shows "2 powi binaryExponent x \<le> x" "x < 2 powi (binaryExponent x + 1)"
proof -
  obtain p q where pq: "quotient_of x = (p, q)" by (cases "quotient_of x")
  then have x: "x = of_int p / of_int q" and q: "0 < q"
    by (simp_all add: quotient_of_div quotient_of_denom_pos)
  with assms have p: "0 < p" by (simp add: zero_less_divide_iff)
  let ?e = "bitlen p - bitlen q"
  have pos: "(0::rat) < 2 powi k" for k by simp
  have up: "x < 2 powi (?e + 1)"
  proof -
    have "of_int p / of_int q < (2 powi bitlen p :: rat) / 2 powi (bitlen q - 1)"
      using bitlen_powi(2) [OF p] bitlen_powi(1) [OF q] p pos
      by (intro frac_less) simp_all
    also have "\<dots> = 2 powi (bitlen p - (bitlen q - 1))"
      by (simp add: power_int_diff)
    finally show ?thesis by (simp add: x algebra_simps)
  qed
  have low: "2 powi (?e - 1) \<le> x"
  proof -
    have "(2 powi (bitlen p - 1) :: rat) / 2 powi bitlen q < of_int p / of_int q"
      using bitlen_powi(1) [OF p] bitlen_powi(2) [OF q] q pos
      by (intro frac_less2) simp_all
    moreover have "(2 powi (bitlen p - 1) :: rat) / 2 powi bitlen q = 2 powi (bitlen p - 1 - bitlen q)"
      by (simp add: power_int_diff)
    ultimately show ?thesis by (simp add: x algebra_simps)
  qed
  from pq up low show "2 powi binaryExponent x \<le> x" "x < 2 powi (binaryExponent x + 1)"
    by (auto simp: binaryExponent_def Let_def)
qed

lemma binaryExponent_mono:
  assumes "0 < x" "x \<le> y"
  shows "binaryExponent x \<le> binaryExponent y"
proof (rule ccontr)
  assume "\<not> binaryExponent x \<le> binaryExponent y"
  then have "binaryExponent y + 1 \<le> binaryExponent x" by simp
  then have "(2::rat) powi (binaryExponent y + 1) \<le> 2 powi binaryExponent x"
    by (intro power_int_increasing) simp_all
  also have "\<dots> \<le> x" using assms(1) by (rule binaryExponent_bounds)
  also have "\<dots> \<le> y" by fact
  also have "\<dots> < 2 powi (binaryExponent y + 1)"
    using assms by (intro binaryExponent_bounds) simp
  finally show False by simp
qed

lemma roundDouble_pos:
  assumes "0 < x"
  shows "roundDouble x =
           of_int (roundHalfEven (x / 2 powi (binaryExponent x - 52))) * 2 powi (binaryExponent x - 52)"
  using assms by (simp add: roundDouble_def Let_def)

lemma scaled_range:
  assumes "0 < x"
  shows "2 ^ 52 \<le> x / 2 powi (binaryExponent x - 52)" "x / 2 powi (binaryExponent x - 52) < 2 ^ 53"
proof -
  let ?e = "binaryExponent x"
  have u: "(0::rat) < 2 powi (?e - 52)" by simp
  have "(2::rat) ^ 52 * 2 powi (?e - 52) = 2 powi ?e"
    by (simp add: power_int_diff)
  with binaryExponent_bounds(1) [OF assms] u show "2 ^ 52 \<le> x / 2 powi (?e - 52)"
    by (simp add: pos_le_divide_eq)
  have "(2::rat) ^ 53 * 2 powi (?e - 52) = 2 powi (?e + 1)"
    by (simp add: power_int_diff power_int_add)
  with binaryExponent_bounds(2) [OF assms] u show "x / 2 powi (?e - 52) < 2 ^ 53"
    by (simp add: pos_divide_less_eq)
qed

lemma roundDouble_range:
  assumes "0 < x"
  shows "2 powi binaryExponent x \<le> roundDouble x" "roundDouble x \<le> 2 powi (binaryExponent x + 1)"
proof -
  let ?e = "binaryExponent x"
  let ?u = "(2::rat) powi (?e - 52)"
  let ?k = "roundHalfEven (x / ?u)"
  have u: "0 < ?u" by simp
  from scaled_range(1) [OF assms] have "(of_int (2 ^ 52) :: rat) \<le> x / ?u" by simp
  then have "2 ^ 52 \<le> ?k" by (rule roundHalfEven_ge)
  then have k1: "(2 ^ 52 :: rat) \<le> of_int ?k" by simp
  have "2 powi ?e = (2::rat) ^ 52 * ?u" by (simp add: power_int_diff)
  also have "\<dots> \<le> of_int ?k * ?u" using k1 u by (intro mult_right_mono) simp_all
  also have "\<dots> = roundDouble x" by (simp add: roundDouble_pos [OF assms])
  finally show "2 powi ?e \<le> roundDouble x" .
  from scaled_range(2) [OF assms] have "x / ?u \<le> (of_int (2 ^ 53) :: rat)" by simp
  then have "?k \<le> 2 ^ 53" by (rule roundHalfEven_le)
  then have k2: "(of_int ?k :: rat) \<le> 2 ^ 53" by simp
  have "roundDouble x = of_int ?k * ?u" by (simp add: roundDouble_pos [OF assms])
  also have "\<dots> \<le> 2 ^ 53 * ?u" using k2 u by (intro mult_right_mono) simp_all
  also have "\<dots> = 2 powi (?e + 1)" by (simp add: power_int_diff power_int_add)
  finally show "roundDouble x \<le> 2 powi (?e + 1)" .
qed

lemma roundDouble_mono_pos:
  assumes "0 < x" "x \<le> y"
  shows "roundDouble x \<le> roundDouble y"
proof (cases "binaryExponent x = binaryExponent y")
  case True
  let ?u = "(2::rat) powi (binaryExponent y - 52)"
  have u: "0 < ?u" by simp
  from assms(2) u have "x / ?u \<le> y / ?u" by (simp add: divide_right_mono)
  then have "roundHalfEven (x / ?u) \<le> roundHalfEven (y / ?u)" by (rule roundHalfEven_mono)
  then have "(of_int (roundHalfEven (x / ?u)) :: rat) \<le> of_int (roundHalfEven (y / ?u))"
    by (simp only: of_int_le_iff)
  with u have "of_int (roundHalfEven (x / ?u)) * ?u \<le> of_int (roundHalfEven (y / ?u)) * ?u"
    by simp
  with True assms show ?thesis by (simp add: roundDouble_pos)
next
  case False
  with binaryExponent_mono [OF assms] have "binaryExponent x + 1 \<le> binaryExponent y" by simp
  then have "(2::rat) powi (binaryExponent x + 1) \<le> 2 powi binaryExponent y"
    by (intro power_int_increasing) simp_all
  with roundDouble_range(2) [OF assms(1)] roundDouble_range(1) [of y] assms
  show ?thesis by simp
qed

lemma roundDouble_minus: "roundDouble (- x) = - roundDouble x"
  by (simp add: roundDouble_def Let_def)

lemma roundDouble_nonneg: "0 \<le> x \<Longrightarrow> 0 \<le> roundDouble x"
  by (simp add: roundDouble_def Let_def roundHalfEven_def sgn_if)

lemma roundDouble_mono:
  assumes "x \<le> y"
  shows "roundDouble x \<le> roundDouble y"
proof -
  consider "0 < x" | "x \<le> 0" "0 \<le> y" | "y < 0" by linarith
  then show ?thesis
  proof cases
    case 1
    then show ?thesis using assms by (rule roundDouble_mono_pos)
  next
    case 2
    from 2(1) have "0 \<le> roundDouble (- x)" by (intro roundDouble_nonneg) simp
    then have "roundDouble x \<le> 0" by (simp add: roundDouble_minus)
    with roundDouble_nonneg [OF 2(2)] show ?thesis by simp
  next
    case 3
    with assms have "roundDouble (- y) \<le> roundDouble (- x)"
      by (intro roundDouble_mono_pos) simp_all
    then show ?thesis by (simp add: roundDouble_minus)
  qed
qed

lemma roundDouble_error: "\<bar>roundDouble x - x\<bar> \<le> \<bar>x\<bar> / 2 ^ 53"
proof -
  have pos: "\<bar>roundDouble x - x\<bar> \<le> x / 2 ^ 53" if "0 < x" for x
  proof -
    let ?e = "binaryExponent x"
    let ?u = "(2::rat) powi (?e - 52)"
    let ?k = "roundHalfEven (x / ?u)"
    have u: "0 < ?u" by simp
    have "roundDouble x - x = (of_int ?k - x / ?u) * ?u"
      using u by (simp add: roundDouble_pos [OF that] algebra_simps)
    then have "\<bar>roundDouble x - x\<bar> = \<bar>of_int ?k - x / ?u\<bar> * ?u"
      using u by (simp add: abs_mult)
    also have "\<dots> \<le> 1 / 2 * ?u"
      using roundHalfEven_error [of "x / ?u"] u by (intro mult_right_mono) simp_all
    also have "1 / 2 * ?u = 2 powi ?e / 2 ^ 53"
      by (simp add: power_int_diff)
    also have "\<dots> \<le> x / 2 ^ 53"
      using binaryExponent_bounds(1) [OF that] by (simp add: divide_right_mono)
    finally show ?thesis .
  qed
  consider "0 < x" | "x = 0" | "x < 0" by linarith
  then show ?thesis
  proof cases
    case 1
    with pos [OF 1] show ?thesis by simp
  next
    case 2
    then show ?thesis by (simp add: roundDouble_def)
  next
    case 3
    then have "0 < - x" by simp
    from pos [OF this] have "\<bar>roundDouble (- x) - (- x)\<bar> \<le> - x / 2 ^ 53" .
    moreover have "\<bar>roundDouble (- x) - (- x)\<bar> = \<bar>roundDouble x - x\<bar>"
      by (simp add: roundDouble_minus abs_minus_commute)
    moreover from 3 have "\<bar>x\<bar> = - x" by simp
    ultimately show ?thesis by simp
  qed
qed

lemma roundDouble_fixed:
  "roundDouble 0 = 0" "roundDouble 1 = 1" "roundDouble 100 = 100" "roundDouble 10000 = 10000"
  by code_simp+

lemma roundDouble_le_fixed: "x \<le> c \<Longrightarrow> roundDouble c = c \<Longrightarrow> roundDouble x \<le> c"
  using roundDouble_mono [of x c] by simp

lemma roundDouble_ge_fixed: "c \<le> x \<Longrightarrow> roundDouble c = c \<Longrightarrow> c \<le> roundDouble x"
  using roundDouble_mono [of c x] by simp

lemma roundDouble_error_bound:
  assumes "0 \<le> x" "x \<le> c" "e = 1 / 2 ^ 53"
  shows "roundDouble x - x \<le> c * e" "x - roundDouble x \<le> c * e"
proof -
  from assms(3) have e: "0 \<le> e" by simp
  from assms(1,3) have "\<bar>x\<bar> / 2 ^ 53 = x * e" by simp
  also from assms(2) e have "\<dots> \<le> c * e" by (rule mult_right_mono)
  finally have "\<bar>x\<bar> / 2 ^ 53 \<le> c * e" .
  with roundDouble_error [of x] have "\<bar>roundDouble x - x\<bar> \<le> c * e" by (rule order_trans)
  then show "roundDouble x - x \<le> c * e" "x - roundDouble x \<le> c * e" by linarith+
qed

lemma similarity_chain:
  fixes q0 :: rat
  assumes "0 \<le> q0"
  defines "u \<equiv> roundDouble (max 0 (roundDouble (roundDouble (1 - roundDouble q0) * 100)) * 100)"
  shows "0 \<le> u" "u \<le> 10000" "\<bar>u - max 0 (1 - q0) * 10000\<bar> \<le> 40000 / 2 ^ 53"
proof -
  define q where "q = roundDouble q0"
  define s where "s = roundDouble (1 - q)"
  define t where "t = roundDouble (s * 100)"
  define e :: rat where "e = 1 / 2 ^ 53"
  have u: "u = roundDouble (max 0 t * 100)" by (simp add: u_def t_def s_def q_def)
  have all: "0 \<le> u \<and> u \<le> 10000 \<and> \<bar>u - max 0 (1 - q0) * 10000\<bar> \<le> 40000 / 2 ^ 53"
  proof (cases "q0 \<le> 1")
    case False
    then have "1 \<le> q" unfolding q_def by (intro roundDouble_ge_fixed roundDouble_fixed) simp
    then have "s \<le> 0" unfolding s_def by (intro roundDouble_le_fixed roundDouble_fixed) simp
    then have "t \<le> 0" unfolding t_def
      by (intro roundDouble_le_fixed roundDouble_fixed) (simp add: mult_le_0_iff)
    then have "max 0 t = 0" by simp
    with u have "u = 0" by (simp add: roundDouble_fixed)
    with False show ?thesis by simp
  next
    case True
    have q: "0 \<le> q" "q \<le> 1" unfolding q_def
      using assms(1) True by (auto intro: roundDouble_nonneg roundDouble_le_fixed roundDouble_fixed)
    have eq: "q - q0 \<le> 1 * e" "q0 - q \<le> 1 * e" unfolding q_def
      by (rule roundDouble_error_bound [OF assms(1) True e_def])+
    from q have a: "0 \<le> 1 - q" "1 - q \<le> 1" by simp_all
    have s: "0 \<le> s" "s \<le> 1" unfolding s_def
      using a by (auto intro: roundDouble_nonneg roundDouble_le_fixed roundDouble_fixed)
    have es: "s - (1 - q) \<le> 1 * e" "(1 - q) - s \<le> 1 * e" unfolding s_def
      by (rule roundDouble_error_bound [OF a e_def])+
    from s have b: "0 \<le> s * 100" "s * 100 \<le> 100" by simp_all
    have t: "0 \<le> t" "t \<le> 100" unfolding t_def
      using b by (auto intro: roundDouble_nonneg roundDouble_le_fixed roundDouble_fixed)
    have et: "t - s * 100 \<le> 100 * e" "s * 100 - t \<le> 100 * e" unfolding t_def
      by (rule roundDouble_error_bound [OF b e_def])+
    from t have m: "max 0 t = t" by simp
    from t have c: "0 \<le> t * 100" "t * 100 \<le> 10000" by simp_all
    have u': "0 \<le> u" "u \<le> 10000" unfolding u m
      using c by (auto intro: roundDouble_nonneg roundDouble_le_fixed roundDouble_fixed)
    have eu: "u - t * 100 \<le> 10000 * e" "t * 100 - u \<le> 10000 * e" unfolding u m
      by (rule roundDouble_error_bound [OF c e_def])+
    from True have x: "max 0 (1 - q0) = 1 - q0" by simp
    have "u - (1 - q0) * 10000 \<le> 40000 * e" "(1 - q0) * 10000 - u \<le> 40000 * e"
      using eq es et eu by (simp_all add: algebra_simps)
    then have "\<bar>u - (1 - q0) * 10000\<bar> \<le> 40000 * e" by (simp add: abs_le_iff)
    then have "\<bar>u - (1 - q0) * 10000\<bar> \<le> 40000 / 2 ^ 53" by (simp add: e_def)
    with u' x show ?thesis by simp
  qed
  from all show "0 \<le> u" "u \<le> 10000" "\<bar>u - max 0 (1 - q0) * 10000\<bar> \<le> 40000 / 2 ^ 53"
    by simp_all
qed

section \<open>Outcomes of the entry points\<close>

lemma optimizeOperations_Nil: "optimizeOperations [] = []"
  by (simp add: optimizeOperations_def)

lemma calculateLevenshtein_Inr:
  assumes "calculateLevenshtein now options s t = Some (Inr r)"
  shows "editDistance r = cellSpec s t (length s) (length t)"
    "\<not> timedOut now (effectiveTimeout options) (length s)"
proof -
  from assms obtain d ops where a: "alignUnits now options s t = Some (Inr (d, ops))"
    and r: "r = \<lparr>editDistance = d, operations = optimizeOperations ops\<rparr>"
    by (auto simp: calculateLevenshtein_def split: option.splits sum.splits)
  from alignUnits_Inr [OF a] r
  show "editDistance r = cellSpec s t (length s) (length t)"
    "\<not> timedOut now (effectiveTimeout options) (length s)" by simp_all
qed

lemma calculateLevenshtein_returns:
  assumes "\<not> timedOut now (effectiveTimeout options) (length s)"
  shows "\<exists>r. calculateLevenshtein now options s t = Some (Inr r)"
  using alignUnits_returns [OF assms, of t] by (auto simp: calculateLevenshtein_def)

lemma calculateLevenshtein_timeout:
  assumes "timedOut now (effectiveTimeout options) (length s)"
  shows "calculateLevenshtein now options s t = Some (Inl LevenshteinTimeout)"
  using alignUnits_timeout [OF assms, of t] by (simp add: calculateLevenshtein_def)

lemma cellSpec_same: "cellSpec s s (length s) (length s) = 0"
  by (rule cellSpec_diag)

lemma mathRound_of_int: "mathRound (of_int k) = k"
  unfolding mathRound_def by (rule floor_unique) simp_all

lemma calculateSimilarity_zero: "calculateSimilarity t1 t2 0 = 100"
  using mathRound_of_int [of 10000]
  by (simp add: calculateSimilarity_def Let_def roundDouble_fixed)

lemma mathRound_near: "of_int (mathRound x) \<le> x + 1 / 2" "x - 1 / 2 < of_int (mathRound x)"
  unfolding mathRound_def by linarith+

lemma mathRound_range:
  assumes "0 \<le> x" "x \<le> 10000"
  shows "0 \<le> mathRound x" "mathRound x \<le> 10000"
proof -
  from assms(1) have "(0::rat) \<le> x + 1 / 2" by simp
  then show "0 \<le> mathRound x" unfolding mathRound_def by simp
  from assms(2) have "x + 1 / 2 < of_int 10001" by simp
  then have "\<lfloor>x + 1 / 2\<rfloor> < 10001" by (simp only: floor_less_iff)
  then show "mathRound x \<le> 10000" unfolding mathRound_def by simp
qed

lemma hundredth_range:
  assumes "0 \<le> k" "k \<le> 10000"
  shows "0 \<le> roundDouble (of_int k / 100)" "roundDouble (of_int k / 100) \<le> 100"
proof -
  from assms(1) show "0 \<le> roundDouble (of_int k / 100)" by (intro roundDouble_nonneg) simp
  from assms(2) have "(of_int k :: rat) \<le> 10000" by simp
  then have "(of_int k :: rat) / 100 \<le> 100" by simp
  then show "roundDouble (of_int k / 100) \<le> 100"
    by (rule roundDouble_le_fixed) (rule roundDouble_fixed)
qed

lemma calculateSimilarity_nonempty:
  assumes "0 < max (length t1) (length t2)"
  shows "calculateSimilarity t1 t2 d =
           roundDouble (of_int (mathRound (roundDouble (max 0 (roundDouble (roundDouble
             (1 - roundDouble (of_nat d / of_nat (max (length t1) (length t2)))) * 100)) * 100))) / 100)"
proof -
  from assms have "\<not> max (length t1) (length t2) = 0" by arith
  then show ?thesis unfolding calculateSimilarity_def Let_def by (simp only: if_False)
qed

lemma exactSimilarity_nonempty:
  assumes "0 < max (length t1) (length t2)"
  shows "exactSimilarity t1 t2 d * 100 =
           max 0 (1 - of_nat d / of_nat (max (length t1) (length t2))) * 10000"
proof -
  from assms have "\<not> (t1 = [] \<and> t2 = [])" by auto
  then show ?thesis by (simp add: exactSimilarity_def)
qed

lemma calculateDiff_unfold:
  "calculateDiff now toLowerCase options t1 t2 =
     (case calculateLevenshtein now
             \<lparr>timeout = Some (case diffTimeout options of None \<Rightarrow> 5000 | Some t \<Rightarrow> t)\<rparr>
             (diffUnits toLowerCase options t1) (diffUnits toLowerCase options t2) of
        None \<Rightarrow> None
      | Some (Inl e) \<Rightarrow> Some (Inl (DiffFailed e))
      | Some (Inr r) \<Rightarrow>
          Some (Inr \<lparr>diffEditDistance = editDistance r,
                     diffs = convertOperationsToDiffRecords (operations r),
                     similarity = calculateSimilarity (preprocessText t1) (preprocessText t2)
                                    (editDistance r),
                     text1 = preprocessText t1,
                     text2 = preprocessText t2\<rparr>))"
  by (simp add: calculateDiff_def diffUnits_def Let_def)

lemma calculateLevenshtein_same:
  assumes "calculateLevenshtein now options s s = Some (Inr r)"
  shows "r = \<lparr>editDistance = 0, operations = []\<rparr>"
proof -
  from assms obtain d ops where a: "alignUnits now options s s = Some (Inr (d, ops))"
    and r: "r = \<lparr>editDistance = d, operations = optimizeOperations ops\<rparr>"
    by (auto simp: calculateLevenshtein_def split: option.splits sum.splits)
  from alignUnits_Inr(1,2) [OF a] have "d = 0" "ops = []" by (simp_all add: cellSpec_diag)
  with r show ?thesis by (simp add: optimizeOperations_Nil)
qed

lemma applyEdits_count:
  "applyEdits es xs = Some ys \<Longrightarrow> length (filter P ys) \<le> length (filter P xs) + editCost es"
proof (induction es arbitrary: xs ys)
  case Nil
  then show ?case by (cases xs) simp_all
next
  case (Cons e es)
  show ?case
  proof (cases xs)
    case Nil
    with Cons.prems obtain y zs where e: "e = InsertUnit y" and zs: "applyEdits es [] = Some zs"
      and ys: "ys = y # zs"
      by (cases e) auto
    from Cons.IH [OF zs, of] Nil e ys show ?thesis by (simp add: editCost_def)
  next
    case (Cons x xs')
    show ?thesis
    proof (cases e)
      case KeepUnit
      with Cons Cons.prems obtain zs where "applyEdits es xs' = Some zs" "ys = x # zs" by auto
      with Cons.IH [of xs' zs] Cons KeepUnit show ?thesis by (simp add: editCost_def)
    next
      case (ReplaceUnit y)
      with Cons Cons.prems obtain zs where "applyEdits es xs' = Some zs" "ys = y # zs" by auto
      with Cons.IH [of xs' zs] Cons ReplaceUnit show ?thesis by (simp add: editCost_def)
    next
      case (InsertUnit y)
      with Cons Cons.prems obtain zs where "applyEdits es xs = Some zs" "ys = y # zs" by auto
      with Cons.IH [of xs zs] Cons InsertUnit show ?thesis by (simp add: editCost_def)
    next
      case DeleteUnit
      with Cons Cons.prems have "applyEdits es xs' = Some ys" by simp
      with Cons.IH [of xs' ys] Cons DeleteUnit show ?thesis by (simp add: editCost_def)
    qed
  qed
qed

lemma minimalEditCost_unique:
  "minimalEditCost s t c \<Longrightarrow> minimalEditCost s t c' \<Longrightarrow> c = c'"
  unfolding minimalEditCost_def by (meson le_antisym)

lemma tie_distance: "minimalEditCost (splitIntoChars tieText1) (splitIntoChars tieText2) 63"
proof -
  let ?es = "replicate 63 (ReplaceUnit [0x62 :: 16 word]) @ replicate 97 KeepUnit"
  have "applyEdits ?es (splitIntoChars tieText1) = Some (splitIntoChars tieText2)" by code_simp
  moreover have "editCost ?es = 63" by code_simp
  ultimately have ex: "\<exists>es. applyEdits es (splitIntoChars tieText1) = Some (splitIntoChars tieText2) \<and>
      editCost es = 63" by blast
  have c2: "length (filter (\<lambda>u. u = [0x62]) (splitIntoChars tieText2)) = 63" by code_simp
  have c1: "length (filter (\<lambda>u. u = [0x62]) (splitIntoChars tieText1)) = 0" by code_simp
  have "63 \<le> editCost es"
    if "applyEdits es (splitIntoChars tieText1) = Some (splitIntoChars tieText2)" for es
    using applyEdits_count [OF that, of "\<lambda>u. u = [0x62]"] c1 c2 by simp
  with ex show ?thesis unfolding minimalEditCost_def by blast
qed

lemma effectiveTimeout_zero:
  "effectiveTimeout \<lparr>timeout = Some 0\<rparr> = 5000"
  by (simp add: effectiveTimeout_def)

section \<open>The claims\<close>

text \<open>
  C7. The earlier \<open>calculateLevenshtein\<close>, which applies no optimization pass: whenever
  it returns, the edit distance \<open>dp[m][n]\<close> equals the number of operations the
  backtrace produced; and it does return whenever no row's timeout check fires.
\<close>

theorem unoptimized_distance_counts_operations:
  "(calculateLevenshteinUnoptimized now options str1 str2 = Some (Inr r) \<longrightarrow>
      editDistance r = length (operations r)) \<and>
   (\<not> timedOut now (effectiveTimeout options) (length str1) \<longrightarrow>
      (\<exists>r. calculateLevenshteinUnoptimized now options str1 str2 = Some (Inr r)))"
proof (intro conjI impI)
  assume "calculateLevenshteinUnoptimized now options str1 str2 = Some (Inr r)"
  then obtain d ops where "alignUnits now options str1 str2 = Some (Inr (d, ops))"
    "r = \<lparr>editDistance = d, operations = ops\<rparr>"
    by (auto simp: calculateLevenshteinUnoptimized_def split: option.splits sum.splits)
  with alignUnits_Inr(2) [of now options str1 str2 d ops]
  show "editDistance r = length (operations r)" by simp
next
  assume "\<not> timedOut now (effectiveTimeout options) (length str1)"
  from alignUnits_returns [OF this, of str2]
  show "\<exists>r. calculateLevenshteinUnoptimized now options str1 str2 = Some (Inr r)"
    by (auto simp: calculateLevenshteinUnoptimized_def)
qed

theorem unoptimized_distance_counts_operations_witness:
  "\<not> timedOut frozenClock (effectiveTimeout \<lparr>timeout = None\<rparr>) (length (splitIntoChars kitten)) \<and>
   calculateLevenshteinUnoptimized frozenClock \<lparr>timeout = None\<rparr>
     (splitIntoChars kitten) (splitIntoChars sitting) =
     Some (Inr \<lparr>editDistance = 3,
                operations =
                  [\<lparr>op_type = Replace, position = 0, oldChar = Some [0x6B], newChar = Some [0x73]\<rparr>,
                   \<lparr>op_type = Replace, position = 4, oldChar = Some [0x65], newChar = Some [0x69]\<rparr>,
                   \<lparr>op_type = Insert, position = 6, oldChar = None, newChar = Some [0x67]\<rparr>]\<rparr>) \<and>
   editDistance \<lparr>editDistance = 3,
                operations =
                  [\<lparr>op_type = Replace, position = 0, oldChar = Some [0x6B], newChar = Some [0x73]\<rparr>,
                   \<lparr>op_type = Replace, position = 4, oldChar = Some [0x65], newChar = Some [0x69]\<rparr>,
                   \<lparr>op_type = Insert, position = 6, oldChar = None, newChar = Some [0x67]\<rparr>]\<rparr> =
   length (operations \<lparr>editDistance = 3,
                operations =
                  [\<lparr>op_type = Replace, position = 0, oldChar = Some [0x6B], newChar = Some [0x73]\<rparr>,
                   \<lparr>op_type = Replace, position = 4, oldChar = Some [0x65], newChar = Some [0x69]\<rparr>,
                   \<lparr>op_type = Insert, position = 6, oldChar = None, newChar = Some [0x67]\<rparr>]\<rparr>)"
proof -
  let ?r = "\<lparr>editDistance = 3,
                operations =
                  [\<lparr>op_type = Replace, position = 0, oldChar = Some [0x6B], newChar = Some [0x73]\<rparr>,
                   \<lparr>op_type = Replace, position = 4, oldChar = Some [0x65], newChar = Some [0x69::16 word]\<rparr>,
                   \<lparr>op_type = Insert, position = 6, oldChar = None, newChar = Some [0x67]\<rparr>]\<rparr>"
  have nt: "\<not> timedOut frozenClock (effectiveTimeout \<lparr>timeout = None\<rparr>)
              (length (splitIntoChars kitten))"
    by code_simp
  have run: "calculateLevenshteinUnoptimized frozenClock \<lparr>timeout = None\<rparr>
     (splitIntoChars kitten) (splitIntoChars sitting) = Some (Inr ?r)"
    by code_simp
  from nt run unoptimized_distance_counts_operations
         [of frozenClock "\<lparr>timeout = None\<rparr>" "splitIntoChars kitten" "splitIntoChars sitting" ?r]
  show ?thesis by blast
qed

text \<open>
  C2. Whenever \<open>calculateLevenshtein\<close> returns, its edit distance is the cell (m, n) of
  the matrix invariant, and that number is the least cost of an edit script (single-unit
  inserts, deletes and replacements) that turns \<open>str1\<close> into \<open>str2\<close>; for "kitten" and
  "sitting" split into characters it is 3. The call returns whenever no row's timeout
  check fires.
\<close>

theorem edit_distance_is_minimal:
  "(calculateLevenshtein now options str1 str2 = Some (Inr r) \<longrightarrow>
      editDistance r = cellSpec str1 str2 (length str1) (length str2) \<and>
      minimalEditCost str1 str2 (editDistance r)) \<and>
   (calculateLevenshtein now options (splitIntoChars kitten) (splitIntoChars sitting) = Some (Inr r) \<longrightarrow>
      editDistance r = 3) \<and>
   (\<not> timedOut now (effectiveTimeout options) (length str1) \<longrightarrow>
      (\<exists>r. calculateLevenshtein now options str1 str2 = Some (Inr r)))"
proof (intro conjI impI)
  assume a: "calculateLevenshtein now options str1 str2 = Some (Inr r)"
  from calculateLevenshtein_Inr(1) [OF a]
  show "editDistance r = cellSpec str1 str2 (length str1) (length str2)" .
  from calculateLevenshtein_Inr(1) [OF a]
  show "minimalEditCost str1 str2 (editDistance r)"
    by (simp add: cellSpec_minimal)
next
  let ?k = "splitIntoChars kitten" and ?s = "splitIntoChars sitting"
  assume "calculateLevenshtein now options ?k ?s = Some (Inr r)"
  from calculateLevenshtein_Inr(1) [OF this]
  have "editDistance r = cellSpec ?k ?s (length ?k) (length ?s)" .
  moreover have "alignUnits frozenClock \<lparr>timeout = None\<rparr> ?k ?s =
      Some (Inr (3, [\<lparr>op_type = Replace, position = 0, oldChar = Some [0x6B], newChar = Some [0x73]\<rparr>,
                   \<lparr>op_type = Replace, position = 4, oldChar = Some [0x65], newChar = Some [0x69]\<rparr>,
                   \<lparr>op_type = Insert, position = 6, oldChar = None, newChar = Some [0x67]\<rparr>]))"
    by code_simp
  from alignUnits_Inr(1) [OF this] have "cellSpec ?k ?s (length ?k) (length ?s) = 3" by simp
  ultimately show "editDistance r = 3" by simp
next
  assume "\<not> timedOut now (effectiveTimeout options) (length str1)"
  then show "\<exists>r. calculateLevenshtein now options str1 str2 = Some (Inr r)"
    by (rule calculateLevenshtein_returns)
qed

theorem edit_distance_is_minimal_witness:
  "\<not> timedOut frozenClock (effectiveTimeout \<lparr>timeout = None\<rparr>) (length (splitIntoChars kitten)) \<and>
   calculateLevenshtein frozenClock \<lparr>timeout = None\<rparr>
     (splitIntoChars kitten) (splitIntoChars sitting) =
     Some (Inr \<lparr>editDistance = 3,
                operations =
                  [\<lparr>op_type = Replace, position = 0, oldChar = Some [0x6B], newChar = Some [0x73]\<rparr>,
                   \<lparr>op_type = Replace, position = 4, oldChar = Some [0x65], newChar = Some [0x69]\<rparr>,
                   \<lparr>op_type = Insert, position = 6, oldChar = None, newChar = Some [0x67]\<rparr>]\<rparr>) \<and>
   cellSpec (splitIntoChars kitten) (splitIntoChars sitting)
     (length (splitIntoChars kitten)) (length (splitIntoChars sitting)) = 3 \<and>
   minimalEditCost (splitIntoChars kitten) (splitIntoChars sitting) 3"
proof -
  let ?r = "\<lparr>editDistance = 3,
                operations =
                  [\<lparr>op_type = Replace, position = 0, oldChar = Some [0x6B], newChar = Some [0x73]\<rparr>,
                   \<lparr>op_type = Replace, position = 4, oldChar = Some [0x65], newChar = Some [0x69::16 word]\<rparr>,
                   \<lparr>op_type = Insert, position = 6, oldChar = None, newChar = Some [0x67]\<rparr>]\<rparr>"
  have nt: "\<not> timedOut frozenClock (effectiveTimeout \<lparr>timeout = None\<rparr>)
              (length (splitIntoChars kitten))"
    by code_simp
  have run: "calculateLevenshtein frozenClock \<lparr>timeout = None\<rparr>
     (splitIntoChars kitten) (splitIntoChars sitting) = Some (Inr ?r)"
    by code_simp
  from nt run edit_distance_is_minimal
         [of frozenClock "\<lparr>timeout = None\<rparr>" "splitIntoChars kitten" "splitIntoChars sitting" ?r]
  show ?thesis by simp
qed

text \<open>
  C8. For every text A and all options, whenever \<open>calculateDiff\<close> of A with A returns,
  the edit distance is 0, there are no diff records and the similarity is 100; and it
  returns, with the normalized text on both sides, whenever no row's timeout check fires.
\<close>

theorem identical_texts_have_no_difference:
  "(calculateDiff now toLowerCase options A A = Some (Inr r) \<longrightarrow>
      diffEditDistance r = 0 \<and> diffs r = [] \<and> similarity r = 100) \<and>
   (\<not> timedOut now (diffBudget options) (length (diffUnits toLowerCase options A)) \<longrightarrow>
      calculateDiff now toLowerCase options A A =
        Some (Inr \<lparr>diffEditDistance = 0, diffs = [], similarity = 100,
                   text1 = preprocessText A, text2 = preprocessText A\<rparr>))"
proof -
  let ?opts = "\<lparr>timeout = Some (case diffTimeout options of None \<Rightarrow> 5000 | Some t \<Rightarrow> t)\<rparr>"
  let ?u = "diffUnits toLowerCase options A"
  have res: "calculateDiff now toLowerCase options A A =
      Some (Inr \<lparr>diffEditDistance = 0, diffs = [], similarity = 100,
                 text1 = preprocessText A, text2 = preprocessText A\<rparr>)"
    if "calculateLevenshtein now ?opts ?u ?u = Some (Inr r')" for r'
    using calculateLevenshtein_same [OF that] that
    by (simp add: calculateDiff_unfold convertOperationsToDiffRecords_def calculateSimilarity_zero)
  show ?thesis
  proof (rule conjI; rule impI)
    assume a: "calculateDiff now toLowerCase options A A = Some (Inr r)"
    then obtain r' where "calculateLevenshtein now ?opts ?u ?u = Some (Inr r')"
      by (auto simp: calculateDiff_unfold split: option.splits sum.splits)
    from res [OF this] a show "diffEditDistance r = 0 \<and> diffs r = [] \<and> similarity r = 100"
      by auto
  next
    assume "\<not> timedOut now (diffBudget options) (length ?u)"
    then obtain r' where "calculateLevenshtein now ?opts ?u ?u = Some (Inr r')"
      using calculateLevenshtein_returns [of now ?opts ?u ?u] by (auto simp: diffBudget_def)
    from res [OF this]
    show "calculateDiff now toLowerCase options A A =
        Some (Inr \<lparr>diffEditDistance = 0, diffs = [], similarity = 100,
                   text1 = preprocessText A, text2 = preprocessText A\<rparr>)" .
  qed
qed

theorem identical_texts_have_no_difference_witness:
  "calculateDiff frozenClock asciiToLowerCase defaultOptions kitten kitten =
     Some (Inr \<lparr>diffEditDistance = 0, diffs = [], similarity = 100,
                text1 = kitten, text2 = kitten\<rparr>)"
proof -
  have "\<not> timedOut frozenClock (diffBudget defaultOptions)
           (length (diffUnits asciiToLowerCase defaultOptions kitten))"
    by code_simp
  moreover have "preprocessText kitten = kitten" by code_simp
  ultimately show ?thesis
    using identical_texts_have_no_difference
            [of frozenClock asciiToLowerCase defaultOptions kitten]
    by simp
qed

text \<open>
  C10. A timeout of 0 is replaced by the default budget of 5000 milliseconds: the call
  with timeout 0 is the call with timeout 5000 (and the call with no timeout), so it
  returns whenever no row is reached later than 5000 ms after the start, although
  \<open>validateLevenshteinOptions\<close> reports every timeout \<open>\<le> 0\<close> as invalid.
\<close>

theorem zero_timeout_falls_back_to_default:
  "calculateLevenshtein now \<lparr>timeout = Some 0\<rparr> str1 str2 =
     calculateLevenshtein now \<lparr>timeout = Some 5000\<rparr> str1 str2 \<and>
   calculateLevenshtein now \<lparr>timeout = Some 0\<rparr> str1 str2 =
     calculateLevenshtein now \<lparr>timeout = None\<rparr> str1 str2 \<and>
   (\<not> timedOut now 5000 (length str1) \<longrightarrow>
      (\<exists>r. calculateLevenshtein now \<lparr>timeout = Some 0\<rparr> str1 str2 = Some (Inr r))) \<and>
   (t \<le> 0 \<longrightarrow> \<not> isValid (validateLevenshteinOptions \<lparr>timeout = Some t\<rparr>))"
proof (intro conjI impI)
  show "calculateLevenshtein now \<lparr>timeout = Some 0\<rparr> str1 str2 =
     calculateLevenshtein now \<lparr>timeout = Some 5000\<rparr> str1 str2"
    by (simp add: calculateLevenshtein_def alignUnits_def effectiveTimeout_def)
  show "calculateLevenshtein now \<lparr>timeout = Some 0\<rparr> str1 str2 =
     calculateLevenshtein now \<lparr>timeout = None\<rparr> str1 str2"
    by (simp add: calculateLevenshtein_def alignUnits_def effectiveTimeout_def)
next
  assume "\<not> timedOut now 5000 (length str1)"
  then show "\<exists>r. calculateLevenshtein now \<lparr>timeout = Some 0\<rparr> str1 str2 = Some (Inr r)"
    using calculateLevenshtein_returns [of now "\<lparr>timeout = Some 0\<rparr>" str1 str2]
    by (simp add: effectiveTimeout_zero)
next
  assume "t \<le> 0"
  then show "\<not> isValid (validateLevenshteinOptions \<lparr>timeout = Some t\<rparr>)"
    by (simp add: validateLevenshteinOptions_def)
qed

theorem zero_timeout_falls_back_to_default_witness:
  "\<not> timedOut tickingClock 5000 (length (splitIntoChars abc)) \<and>
   tickingClock 1 - tickingClock 0 > 0 \<and>
   calculateLevenshtein tickingClock \<lparr>timeout = Some 0\<rparr> (splitIntoChars abc) [] =
     Some (Inr \<lparr>editDistance = 3,
                operations =
                  [\<lparr>op_type = Delete, position = 0, oldChar = Some [0x61], newChar = None\<rparr>,
                   \<lparr>op_type = Delete, position = 1, oldChar = Some [0x62], newChar = None\<rparr>,
                   \<lparr>op_type = Delete, position = 2, oldChar = Some [0x63], newChar = None\<rparr>]\<rparr>) \<and>
   \<not> isValid (validateLevenshteinOptions \<lparr>timeout = Some 0\<rparr>)"
proof -
  have 1: "\<not> timedOut tickingClock 5000 (length (splitIntoChars abc))" by code_simp
  have 2: "tickingClock 1 - tickingClock 0 > 0" by code_simp
  have 3: "calculateLevenshtein tickingClock \<lparr>timeout = Some 5000\<rparr> (splitIntoChars abc) [] =
     Some (Inr \<lparr>editDistance = 3,
                operations =
                  [\<lparr>op_type = Delete, position = 0, oldChar = Some [0x61], newChar = None\<rparr>,
                   \<lparr>op_type = Delete, position = 1, oldChar = Some [0x62], newChar = None\<rparr>,
                   \<lparr>op_type = Delete, position = 2, oldChar = Some [0x63], newChar = None\<rparr>]\<rparr>)"
    by code_simp
  from 1 2 3 zero_timeout_falls_back_to_default [of tickingClock "splitIntoChars abc" "[]" 0]
  show ?thesis by simp
qed

text \<open>
  C6. On the matrix the fill loops build, at a cell (i, j) with i > 0 and j > 0 whose
  units differ, the backtrace step tries replace (cost = diagonal + 1), then delete
  (cost = up + 1), then insert (cost = left + 1), and one of the three matches; the
  first match is the operation pushed. Over equal units the step is the diagonal move
  to (i - 1, j - 1) and pushes nothing; in column 0 it is the delete of unit i - 1, in
  row 0 the insert of unit j - 1 at position 0. At every cell other than (0, 0) the loop
  continues from the cell the step gives, with the operation of the step appended to
  the operations pushed so far, and it pushes nothing exactly in the diagonal move.
  From (i, j) the loop ends with the operations of the specification's backtrace
  appended, so the alignment returns that list reversed.
\<close>

theorem backtrace_transition_order:
  assumes "fillRows now budget str1 str2 (length str2) [1..<length str1 + 1]
             (initBoundary (length str1) (length str2) (newMatrix (length str1) (length str2))) = Inr dp"
    and "i \<le> length str1" "j \<le> length str2"
  shows "(0 < i \<and> 0 < j \<and> str1 ! (i - 1) \<noteq> str2 ! (j - 1) \<longrightarrow>
            backtraceStep dp str1 str2 i j =
              (if dp ! i ! j = dp ! (i - 1) ! (j - 1) + 1 then
                 Some (Some \<lparr>op_type = Replace, position = i - 1,
                             oldChar = Some (str1 ! (i - 1)), newChar = Some (str2 ! (j - 1))\<rparr>,
                       i - 1, j - 1)
               else if dp ! i ! j = dp ! (i - 1) ! j + 1 then
                 Some (Some \<lparr>op_type = Delete, position = i - 1,
                             oldChar = Some (str1 ! (i - 1)), newChar = None\<rparr>,
                       i - 1, j)
               else
                 Some (Some \<lparr>op_type = Insert, position = i,
                             oldChar = None, newChar = Some (str2 ! (j - 1))\<rparr>,
                       i, j - 1)) \<and>
            (dp ! i ! j = dp ! (i - 1) ! (j - 1) + 1 \<or> dp ! i ! j = dp ! (i - 1) ! j + 1 \<or>
             dp ! i ! j = dp ! i ! (j - 1) + 1)) \<and>
         (0 < i \<and> 0 < j \<and> str1 ! (i - 1) = str2 ! (j - 1) \<longrightarrow>
            backtraceStep dp str1 str2 i j = Some (None, i - 1, j - 1)) \<and>
         (0 < i \<and> j = 0 \<longrightarrow>
            backtraceStep dp str1 str2 i j =
              Some (Some \<lparr>op_type = Delete, position = i - 1,
                          oldChar = Some (str1 ! (i - 1)), newChar = None\<rparr>,
                    i - 1, j)) \<and>
         (i = 0 \<and> 0 < j \<longrightarrow>
            backtraceStep dp str1 str2 i j =
              Some (Some \<lparr>op_type = Insert, position = i,
                          oldChar = None, newChar = Some (str2 ! (j - 1))\<rparr>,
                    i, j - 1)) \<and>
         (0 < i \<or> 0 < j \<longrightarrow>
            (\<exists>e i' j'. backtraceStep dp str1 str2 i j = Some (e, i', j') \<and>
               (e = None \<longleftrightarrow> 0 < i \<and> 0 < j \<and> str1 ! (i - 1) = str2 ! (j - 1)) \<and>
               backtrace dp str1 str2 i j ops =
                 backtrace dp str1 str2 i' j' (case e of None \<Rightarrow> ops | Some op \<Rightarrow> ops @ [op]))) \<and>
         backtrace dp str1 str2 i j ops = Some (ops @ transitionTrace str1 str2 i j) \<and>
         (alignUnits clock options str1 str2 = Some (Inr (d, xs)) \<longrightarrow>
            xs = rev (transitionTrace str1 str2 (length str1) (length str2)) \<and> d = length xs)"
proof -
  from assms(1) have ok: "matrixOk str1 str2 (length str1) (length str2) dp"
    by (rule fillRows_matrixOk)
  have rd: "dp ! i ! j = cellSpec str1 str2 i j"
    "dp ! (i - 1) ! j = cellSpec str1 str2 (i - 1) j"
    "dp ! i ! (j - 1) = cellSpec str1 str2 i (j - 1)"
    "dp ! (i - 1) ! (j - 1) = cellSpec str1 str2 (i - 1) (j - 1)"
    using ok assms(2,3) unfolding matrixOk_def by simp_all
  have differ: "0 < i \<and> 0 < j \<and> str1 ! (i - 1) \<noteq> str2 ! (j - 1) \<longrightarrow>
            backtraceStep dp str1 str2 i j =
              (if dp ! i ! j = dp ! (i - 1) ! (j - 1) + 1 then
                 Some (Some \<lparr>op_type = Replace, position = i - 1,
                             oldChar = Some (str1 ! (i - 1)), newChar = Some (str2 ! (j - 1))\<rparr>,
                       i - 1, j - 1)
               else if dp ! i ! j = dp ! (i - 1) ! j + 1 then
                 Some (Some \<lparr>op_type = Delete, position = i - 1,
                             oldChar = Some (str1 ! (i - 1)), newChar = None\<rparr>,
                       i - 1, j)
               else
                 Some (Some \<lparr>op_type = Insert, position = i,
                             oldChar = None, newChar = Some (str2 ! (j - 1))\<rparr>,
                       i, j - 1)) \<and>
            (dp ! i ! j = dp ! (i - 1) ! (j - 1) + 1 \<or> dp ! i ! j = dp ! (i - 1) ! j + 1 \<or>
             dp ! i ! j = dp ! i ! (j - 1) + 1)"
  proof
    assume a: "0 < i \<and> 0 < j \<and> str1 ! (i - 1) \<noteq> str2 ! (j - 1)"
    then have pos: "0 < i \<or> 0 < j" by simp
    from ok assms(2,3) pos
    have some: "dp ! i ! j = dp ! (i - 1) ! (j - 1) + 1 \<or> dp ! i ! j = dp ! (i - 1) ! j + 1 \<or>
             dp ! i ! j = dp ! i ! (j - 1) + 1"
      by (cases rule: backtraceStep_cases) (use a rd in simp_all)
    with a show "backtraceStep dp str1 str2 i j =
              (if dp ! i ! j = dp ! (i - 1) ! (j - 1) + 1 then
                 Some (Some \<lparr>op_type = Replace, position = i - 1,
                             oldChar = Some (str1 ! (i - 1)), newChar = Some (str2 ! (j - 1))\<rparr>,
                       i - 1, j - 1)
               else if dp ! i ! j = dp ! (i - 1) ! j + 1 then
                 Some (Some \<lparr>op_type = Delete, position = i - 1,
                             oldChar = Some (str1 ! (i - 1)), newChar = None\<rparr>,
                       i - 1, j)
               else
                 Some (Some \<lparr>op_type = Insert, position = i,
                             oldChar = None, newChar = Some (str2 ! (j - 1))\<rparr>,
                       i, j - 1)) \<and>
            (dp ! i ! j = dp ! (i - 1) ! (j - 1) + 1 \<or> dp ! i ! j = dp ! (i - 1) ! j + 1 \<or>
             dp ! i ! j = dp ! i ! (j - 1) + 1)"
      by (auto simp: backtraceStep_def)
  qed
  have same: "0 < i \<and> 0 < j \<and> str1 ! (i - 1) = str2 ! (j - 1) \<longrightarrow>
            backtraceStep dp str1 str2 i j = Some (None, i - 1, j - 1)"
    by (simp add: backtraceStep_def)
  have top: "0 < i \<and> j = 0 \<longrightarrow>
            backtraceStep dp str1 str2 i j =
              Some (Some \<lparr>op_type = Delete, position = i - 1,
                          oldChar = Some (str1 ! (i - 1)), newChar = None\<rparr>,
                    i - 1, j)"
  proof
    assume a: "0 < i \<and> j = 0"
    then have pos: "0 < i \<or> 0 < j" by simp
    from ok assms(2,3) pos show "backtraceStep dp str1 str2 i j =
              Some (Some \<lparr>op_type = Delete, position = i - 1,
                          oldChar = Some (str1 ! (i - 1)), newChar = None\<rparr>,
                    i - 1, j)"
      by (cases rule: backtraceStep_cases) (use a in \<open>simp_all add: deleteOp_def\<close>)
  qed
  have left: "i = 0 \<and> 0 < j \<longrightarrow>
            backtraceStep dp str1 str2 i j =
              Some (Some \<lparr>op_type = Insert, position = i,
                          oldChar = None, newChar = Some (str2 ! (j - 1))\<rparr>,
                    i, j - 1)"
  proof
    assume a: "i = 0 \<and> 0 < j"
    then have pos: "0 < i \<or> 0 < j" by simp
    from ok assms(2,3) pos show "backtraceStep dp str1 str2 i j =
              Some (Some \<lparr>op_type = Insert, position = i,
                          oldChar = None, newChar = Some (str2 ! (j - 1))\<rparr>,
                    i, j - 1)"
      by (cases rule: backtraceStep_cases) (use a in \<open>simp_all add: insertOp_def\<close>)
  qed
  have step: "0 < i \<or> 0 < j \<longrightarrow>
            (\<exists>e i' j'. backtraceStep dp str1 str2 i j = Some (e, i', j') \<and>
               (e = None \<longleftrightarrow> 0 < i \<and> 0 < j \<and> str1 ! (i - 1) = str2 ! (j - 1)) \<and>
               backtrace dp str1 str2 i j ops =
                 backtrace dp str1 str2 i' j' (case e of None \<Rightarrow> ops | Some op \<Rightarrow> ops @ [op]))"
  proof
    assume pos: "0 < i \<or> 0 < j"
    have loop: "backtrace dp str1 str2 i j ops =
        backtrace dp str1 str2 i' j' (case e of None \<Rightarrow> ops | Some op \<Rightarrow> ops @ [op])"
      if "backtraceStep dp str1 str2 i j = Some (e, i', j')" for e i' j'
      using that pos by (subst backtrace.simps) simp
    from ok assms(2,3) pos
    show "\<exists>e i' j'. backtraceStep dp str1 str2 i j = Some (e, i', j') \<and>
               (e = None \<longleftrightarrow> 0 < i \<and> 0 < j \<and> str1 ! (i - 1) = str2 ! (j - 1)) \<and>
               backtrace dp str1 str2 i j ops =
                 backtrace dp str1 str2 i' j' (case e of None \<Rightarrow> ops | Some op \<Rightarrow> ops @ [op])"
    proof (cases rule: backtraceStep_cases)
      case same
      with loop [OF same(4)] show ?thesis by simp
    next
      case rep
      with loop [OF rep(4)] show ?thesis by simp
    next
      case del
      with loop [OF del(3)] show ?thesis by auto
    next
      case ins
      have "\<not> (0 < i \<and> 0 < j \<and> str1 ! (i - 1) = str2 ! (j - 1))"
        using ins(2) by (auto simp: backtraceStep_def)
      with ins loop [OF ins(2)] show ?thesis by simp
    qed
  qed
  have trace: "backtrace dp str1 str2 i j ops = Some (ops @ transitionTrace str1 str2 i j)"
    using ok assms(2,3) by (rule backtrace_trace)
  have whole: "alignUnits clock options str1 str2 = Some (Inr (d, xs)) \<longrightarrow>
            xs = rev (transitionTrace str1 str2 (length str1) (length str2)) \<and> d = length xs"
  proof
    assume a: "alignUnits clock options str1 str2 = Some (Inr (d, xs))"
    from alignUnits_trace [OF a] alignUnits_Inr [OF a]
    show "xs = rev (transitionTrace str1 str2 (length str1) (length str2)) \<and> d = length xs"
      by simp
  qed
  from differ same top left step trace whole show ?thesis by (intro conjI)
qed

theorem backtrace_transition_order_witness:
  "fillRows frozenClock 5000 [[0x61], [0x62]] [[0x63], [0x64], [0x62]]
     (length [[0x63 :: 16 word], [0x64], [0x62]]) [1..<length [[0x61 :: 16 word], [0x62]] + 1]
     (initBoundary (length [[0x61 :: 16 word], [0x62]]) (length [[0x63 :: 16 word], [0x64], [0x62]])
        (newMatrix (length [[0x61 :: 16 word], [0x62]]) (length [[0x63 :: 16 word], [0x64], [0x62]]))) =
     Inr [[0, 1, 2, 3], [1, 1, 2, 3], [2, 2, 2, 2]] \<and>
   backtraceStep [[0, 1, 2, 3], [1, 1, 2, 3], [2, 2, 2, 2]]
     [[0x61], [0x62]] [[0x63], [0x64], [0x62]] 2 3 = Some (None, 1, 2) \<and>
   backtraceStep [[0, 1, 2, 3], [1, 1, 2, 3], [2, 2, 2, 2]]
     [[0x61], [0x62]] [[0x63], [0x64], [0x62]] 1 2 =
     Some (Some \<lparr>op_type = Replace, position = 0, oldChar = Some [0x61], newChar = Some [0x64]\<rparr>,
           0, 1) \<and>
   backtraceStep [[0, 1, 2, 3], [1, 1, 2, 3], [2, 2, 2, 2]]
     [[0x61], [0x62]] [[0x63], [0x64], [0x62]] 0 1 =
     Some (Some \<lparr>op_type = Insert, position = 0, oldChar = None, newChar = Some [0x63]\<rparr>,
           0, 0) \<and>
   backtraceStep [[0, 1, 2, 3], [1, 1, 2, 3], [2, 2, 2, 2]]
     [[0x61], [0x62]] [[0x63], [0x64], [0x62]] 1 0 =
     Some (Some \<lparr>op_type = Delete, position = 0, oldChar = Some [0x61], newChar = None\<rparr>,
           0, 0) \<and>
   backtrace [[0, 1, 2, 3], [1, 1, 2, 3], [2, 2, 2, 2]]
     [[0x61], [0x62]] [[0x63], [0x64], [0x62]] 2 3 [] =
     Some [\<lparr>op_type = Replace, position = 0, oldChar = Some [0x61], newChar = Some [0x64]\<rparr>,
           \<lparr>op_type = Insert, position = 0, oldChar = None, newChar = Some [0x63]\<rparr>] \<and>
   alignUnits frozenClock \<lparr>timeout = None\<rparr> [[0x61], [0x62]] [[0x63], [0x64], [0x62]] =
     Some (Inr (2, [\<lparr>op_type = Insert, position = 0, oldChar = None, newChar = Some [0x63]\<rparr>,
                    \<lparr>op_type = Replace, position = 0, oldChar = Some [0x61],
                      newChar = Some [0x64]\<rparr>]))"
proof -
  let ?s = "[[0x61 :: 16 word], [0x62]]" and ?t = "[[0x63 :: 16 word], [0x64], [0x62]]"
  let ?dp = "[[0, 1, 2, 3], [1, 1, 2, 3], [2 :: nat, 2, 2, 2]]"
  let ?ops = "[\<lparr>op_type = Insert, position = 0, oldChar = None, newChar = Some [0x63 :: 16 word]\<rparr>,
               \<lparr>op_type = Replace, position = 0, oldChar = Some [0x61], newChar = Some [0x64]\<rparr>]"
  have run: "fillRows frozenClock 5000 ?s ?t (length ?t) [1..<length ?s + 1]
     (initBoundary (length ?s) (length ?t) (newMatrix (length ?s) (length ?t))) = Inr ?dp"
    by code_simp
  have le: "2 \<le> length ?s" "3 \<le> length ?t" "1 \<le> length ?s" "2 \<le> length ?t"
    "0 \<le> length ?s" "1 \<le> length ?t" "0 \<le> length ?t"
    by simp_all
  have al: "alignUnits frozenClock \<lparr>timeout = None\<rparr> ?s ?t = Some (Inr (2, ?ops))"
    by code_simp
  have tr: "transitionTrace ?s ?t 2 3 = rev ?ops" by code_simp
  from backtrace_transition_order [OF run le(1,2), of "[]" frozenClock "\<lparr>timeout = None\<rparr>" 2 ?ops]
  have c23: "backtraceStep ?dp ?s ?t 2 3 = Some (None, 1, 2)"
    and bt: "backtrace ?dp ?s ?t 2 3 [] = Some (rev ?ops)"
    by (simp_all add: tr)
  from backtrace_transition_order [OF run le(3,4)]
  have c12: "backtraceStep ?dp ?s ?t 1 2 =
     Some (Some \<lparr>op_type = Replace, position = 0, oldChar = Some [0x61], newChar = Some [0x64]\<rparr>,
           0, 1)"
    by simp
  from backtrace_transition_order [OF run le(5,6)]
  have c01: "backtraceStep ?dp ?s ?t 0 1 =
     Some (Some \<lparr>op_type = Insert, position = 0, oldChar = None, newChar = Some [0x63]\<rparr>,
           0, 0)"
    by simp
  from backtrace_transition_order [OF run le(3,7)]
  have c10: "backtraceStep ?dp ?s ?t 1 0 =
     Some (Some \<lparr>op_type = Delete, position = 0, oldChar = Some [0x61], newChar = None\<rparr>,
           0, 0)"
    by simp
  from run c23 c12 c01 c10 bt al show ?thesis by simp
qed

text \<open>
  C3, as the code has it. The similarity is computed in double-precision arithmetic.
  It is 100 when both texts are empty, and it lies between 0 and 100. It is the double
  nearest to \<open>k / 100\<close> for an integer k from 0 to 10000, and \<open>k / 100\<close> differs from
  \<open>max(0, 1 - editDistance / max(len(text1), len(text2))) * 100\<close> by at most
  \<open>0.005 + 10^-13\<close>. It is the double nearest to that value rounded to two decimal
  places whenever the value is not near a tie of the rounding. The similarity of a diff
  result is this function of its two normalized texts and its edit distance.
\<close>

theorem similarity_in_double_arithmetic:
  "(t1 = [] \<and> t2 = [] \<longrightarrow> calculateSimilarity t1 t2 d = 100) \<and>
   0 \<le> calculateSimilarity t1 t2 d \<and> calculateSimilarity t1 t2 d \<le> 100 \<and>
   (\<exists>k. 0 \<le> k \<and> k \<le> 10000 \<and> calculateSimilarity t1 t2 d = roundDouble (of_int k / 100) \<and>
        \<bar>of_int k / 100 - exactSimilarity t1 t2 d\<bar> \<le> 1 / 200 + 1 / 10 ^ 13) \<and>
   (\<not> nearTie (exactSimilarity t1 t2 d) \<longrightarrow>
      calculateSimilarity t1 t2 d = roundDouble (roundToTwoDecimals (exactSimilarity t1 t2 d))) \<and>
   (calculateDiff now toLowerCase options A B = Some (Inr r) \<longrightarrow>
      similarity r = calculateSimilarity (text1 r) (text2 r) (diffEditDistance r))"
proof -
  have diff: "similarity r = calculateSimilarity (text1 r) (text2 r) (diffEditDistance r)"
    if "calculateDiff now toLowerCase options A B = Some (Inr r)"
    using that by (auto simp: calculateDiff_unfold split: option.splits sum.splits)
  show ?thesis
  proof (cases "0 < max (length t1) (length t2)")
    case False
    then have e: "t1 = []" "t2 = []" by auto
    have c: "calculateSimilarity t1 t2 d = 100" by (simp add: e calculateSimilarity_def)
    have x: "exactSimilarity t1 t2 d = 100" by (simp add: e exactSimilarity_def)
    have "mathRound (of_int 10000) = 10000" by (rule mathRound_of_int)
    then have r: "roundToTwoDecimals 100 = 100" by (simp add: roundToTwoDecimals_def mathRound_def)
    have "calculateSimilarity t1 t2 d = roundDouble (of_int 10000 / 100) \<and>
          \<bar>of_int 10000 / 100 - exactSimilarity t1 t2 d\<bar> \<le> 1 / 200 + 1 / 10 ^ 13"
      by (simp add: c x roundDouble_fixed)
    then have ex: "\<exists>k. 0 \<le> k \<and> k \<le> 10000 \<and>
          calculateSimilarity t1 t2 d = roundDouble (of_int k / 100) \<and>
          \<bar>of_int k / 100 - exactSimilarity t1 t2 d\<bar> \<le> 1 / 200 + 1 / 10 ^ 13"
      by (intro exI [of _ 10000]) simp
    show ?thesis
    proof (intro conjI impI)
      show "calculateSimilarity t1 t2 d = 100" by (rule c)
      show "0 \<le> calculateSimilarity t1 t2 d" "calculateSimilarity t1 t2 d \<le> 100"
        unfolding c by simp_all
      show "\<exists>k. 0 \<le> k \<and> k \<le> 10000 \<and>
          calculateSimilarity t1 t2 d = roundDouble (of_int k / 100) \<and>
          \<bar>of_int k / 100 - exactSimilarity t1 t2 d\<bar> \<le> 1 / 200 + 1 / 10 ^ 13"
        by (rule ex)
      show "calculateSimilarity t1 t2 d = roundDouble (roundToTwoDecimals (exactSimilarity t1 t2 d))"
        unfolding c x r roundDouble_fixed ..
    next
      assume "calculateDiff now toLowerCase options A B = Some (Inr r)"
      then show "similarity r = calculateSimilarity (text1 r) (text2 r) (diffEditDistance r)"
        by (rule diff)
    qed
  next
    case True
    let ?L = "max (length t1) (length t2)"
    define u where "u = roundDouble (max 0 (roundDouble (roundDouble
               (1 - roundDouble (of_nat d / of_nat ?L)) * 100)) * 100)"
    define k where "k = mathRound u"
    define E where "E = exactSimilarity t1 t2 d * 100"
    have q0: "(0::rat) \<le> of_nat d / of_nat ?L" by simp
    have u: "0 \<le> u" "u \<le> 10000"
      unfolding u_def by (rule similarity_chain(1,2) [OF q0])+
    have eu: "\<bar>u - E\<bar> \<le> 40000 / 2 ^ 53"
      unfolding u_def E_def exactSimilarity_nonempty [OF True] by (rule similarity_chain(3) [OF q0])
    have c: "calculateSimilarity t1 t2 d = roundDouble (of_int k / 100)"
      by (simp add: calculateSimilarity_nonempty [OF True] k_def u_def)
    from mathRound_range [OF u] have k: "0 \<le> k" "k \<le> 10000" by (simp_all add: k_def)
    from True have ne: "\<not> (t1 = [] \<and> t2 = [])" by auto
    have near: "of_int k \<le> u + 1 / 2" "u - 1 / 2 < of_int k"
      unfolding k_def by (rule mathRound_near)+
    have "\<bar>of_int k - E\<bar> \<le> 1 / 2 + 40000 / 2 ^ 53" using near eu by linarith
    then have "\<bar>of_int k - E\<bar> / 100 \<le> (1 / 2 + 40000 / 2 ^ 53) / 100"
      by (simp add: divide_right_mono)
    moreover have "\<bar>of_int k / 100 - exactSimilarity t1 t2 d\<bar> = \<bar>of_int k - E\<bar> / 100"
    proof -
      have "of_int k - E = (of_int k / 100 - exactSimilarity t1 t2 d) * 100"
        by (simp add: E_def algebra_simps)
      then have "\<bar>of_int k - E\<bar> = \<bar>of_int k / 100 - exactSimilarity t1 t2 d\<bar> * 100"
        by (simp only: abs_mult abs_numeral)
      then show ?thesis by simp
    qed
    moreover have "((1::rat) / 2 + 40000 / 2 ^ 53) / 100 \<le> 1 / 200 + 1 / 10 ^ 13" by simp
    ultimately have dist: "\<bar>of_int k / 100 - exactSimilarity t1 t2 d\<bar> \<le> 1 / 200 + 1 / 10 ^ 13"
      by linarith
    have tie: "calculateSimilarity t1 t2 d =
        roundDouble (roundToTwoDecimals (exactSimilarity t1 t2 d))"
      if nt: "\<not> nearTie (exactSimilarity t1 t2 d)"
    proof -
      define y where "y = E + 1 / 2"
      from nt have f: "1 / 10 ^ 11 \<le> frac y" "frac y \<le> 1 - 1 / 10 ^ 11"
        by (simp_all add: nearTie_def y_def E_def not_less)
      have fy: "y = of_int \<lfloor>y\<rfloor> + frac y" by (simp add: frac_def)
      have small: "(40000::rat) / 2 ^ 53 < 1 / 10 ^ 11" by simp
      have "\<lfloor>u + 1 / 2\<rfloor> = \<lfloor>y\<rfloor>"
      proof (rule floor_unique)
        show "of_int \<lfloor>y\<rfloor> \<le> u + 1 / 2" using eu f(1) fy small unfolding y_def by linarith
        show "u + 1 / 2 < of_int \<lfloor>y\<rfloor> + 1" using eu f(2) fy small unfolding y_def by linarith
      qed
      then have "k = \<lfloor>exactSimilarity t1 t2 d * 100 + 1 / 2\<rfloor>"
        by (simp add: k_def mathRound_def y_def E_def)
      then show ?thesis by (simp add: c roundToTwoDecimals_def)
    qed
    show ?thesis
    proof (intro conjI impI)
      assume "t1 = [] \<and> t2 = []"
      with ne show "calculateSimilarity t1 t2 d = 100" by simp
    next
      show "0 \<le> calculateSimilarity t1 t2 d" unfolding c by (rule hundredth_range(1) [OF k])
      show "calculateSimilarity t1 t2 d \<le> 100" unfolding c by (rule hundredth_range(2) [OF k])
      show "\<exists>k. 0 \<le> k \<and> k \<le> 10000 \<and>
          calculateSimilarity t1 t2 d = roundDouble (of_int k / 100) \<and>
          \<bar>of_int k / 100 - exactSimilarity t1 t2 d\<bar> \<le> 1 / 200 + 1 / 10 ^ 13"
        using k c dist by blast
    next
      assume "\<not> nearTie (exactSimilarity t1 t2 d)"
      then show "calculateSimilarity t1 t2 d =
          roundDouble (roundToTwoDecimals (exactSimilarity t1 t2 d))"
        by (rule tie)
    next
      assume "calculateDiff now toLowerCase options A B = Some (Inr r)"
      then show "similarity r = calculateSimilarity (text1 r) (text2 r) (diffEditDistance r)"
        by (rule diff)
    qed
  qed
qed

theorem similarity_in_double_arithmetic_witness:
  "calculateDiff frozenClock asciiToLowerCase defaultOptions kitten sitting =
     Some (Inr \<lparr>diffEditDistance = 3,
                diffs = [\<lparr>diffPosition = 0, diffType = ModifyRec, content = [0x73],
                          originalContent = Some [0x6B]\<rparr>,
                         \<lparr>diffPosition = 4, diffType = ModifyRec, content = [0x69],
                          originalContent = Some [0x65]\<rparr>,
                         \<lparr>diffPosition = 6, diffType = AddRec, content = [0x67],
                          originalContent = None\<rparr>],
                similarity = roundDouble (5714 / 100), text1 = kitten, text2 = sitting\<rparr>) \<and>
   \<not> nearTie (exactSimilarity kitten sitting 3) \<and>
   roundToTwoDecimals (exactSimilarity kitten sitting 3) = 5714 / 100 \<and>
   calculateSimilarity kitten sitting 3 = roundDouble (5714 / 100) \<and>
   calculateSimilarity [] [] 0 = 100"
proof -
  let ?r = "\<lparr>diffEditDistance = 3,
                diffs = [\<lparr>diffPosition = 0, diffType = ModifyRec, content = [0x73],
                          originalContent = Some [0x6B]\<rparr>,
                         \<lparr>diffPosition = 4, diffType = ModifyRec, content = [0x69],
                          originalContent = Some [0x65]\<rparr>,
                         \<lparr>diffPosition = 6, diffType = AddRec, content = [0x67 :: 16 word],
                          originalContent = None\<rparr>],
                similarity = roundDouble (5714 / 100), text1 = kitten, text2 = sitting\<rparr>"
  have run: "calculateDiff frozenClock asciiToLowerCase defaultOptions kitten sitting =
     Some (Inr ?r)"
    by code_simp
  have nt: "\<not> nearTie (exactSimilarity kitten sitting 3)" by code_simp
  have rt: "roundToTwoDecimals (exactSimilarity kitten sitting 3) = 5714 / 100" by code_simp
  from similarity_in_double_arithmetic
         [of kitten sitting 3 frozenClock asciiToLowerCase defaultOptions kitten sitting ?r] nt rt
  have s1: "calculateSimilarity kitten sitting 3 = roundDouble (5714 / 100)" by simp
  from similarity_in_double_arithmetic [of "[]" "[]" 0]
  have s2: "calculateSimilarity [] [] 0 = 100" by simp
  from run nt rt s1 s2 show ?thesis by (intro conjI)
qed

text \<open>
  C3 as stated fails: for 160 times "a" against 63 times "b" followed by 97 times "a"
  the distance is 63 and the formula gives 60.625, which rounds to 60.63; the doubles of
  the code give 6062.499999999999 before \<open>Math.round\<close>, and the similarity is 60.62.
\<close>

theorem similarity_tie_rounds_down_counterexample:
  "map_option (map_sum id diffEditDistance)
     (calculateDiff frozenClock asciiToLowerCase defaultOptions tieText1 tieText2) =
     Some (Inr 63) \<and>
   map_option (map_sum id similarity)
     (calculateDiff frozenClock asciiToLowerCase defaultOptions tieText1 tieText2) =
     Some (Inr (roundDouble (6062 / 100))) \<and>
   calculateSimilarity tieText1 tieText2 63 = roundDouble (6062 / 100) \<and>
   roundToTwoDecimals (exactSimilarity tieText1 tieText2 63) = 6063 / 100 \<and>
   roundDouble (6062 / 100) \<noteq> roundDouble (6063 / 100) \<and>
   calculateSimilarity tieText1 tieText2 63 <
     roundToTwoDecimals (exactSimilarity tieText1 tieText2 63) - 1 / 200"
proof -
  let ?o = "\<lparr>timeout = Some (case diffTimeout defaultOptions of None \<Rightarrow> 5000 | Some t \<Rightarrow> t)\<rparr>"
  have u: "diffUnits asciiToLowerCase defaultOptions tieText1 = splitIntoChars tieText1"
    "diffUnits asciiToLowerCase defaultOptions tieText2 = splitIntoChars tieText2"
    by code_simp+
  have p: "preprocessText tieText1 = tieText1" "preprocessText tieText2 = tieText2"
    by code_simp+
  have "effectiveTimeout ?o = 5000" by (simp add: effectiveTimeout_def defaultOptions_def)
  then have "\<not> timedOut frozenClock (effectiveTimeout ?o) (length (splitIntoChars tieText1))"
    by (simp add: frozenClock_never_times_out)
  from calculateLevenshtein_returns [OF this]
  obtain r where r: "calculateLevenshtein frozenClock ?o (splitIntoChars tieText1)
      (splitIntoChars tieText2) = Some (Inr r)" by blast
  from calculateLevenshtein_Inr(1) [OF r] cellSpec_minimal
  have "minimalEditCost (splitIntoChars tieText1) (splitIntoChars tieText2) (editDistance r)"
    by simp
  from minimalEditCost_unique [OF this tie_distance] have d: "editDistance r = 63" .
  have s: "calculateSimilarity tieText1 tieText2 63 = roundDouble (6062 / 100)" by code_simp
  have e: "roundToTwoDecimals (exactSimilarity tieText1 tieText2 63) = 6063 / 100" by code_simp
  have n: "roundDouble (6062 / 100) \<noteq> roundDouble (6063 / 100)" by code_simp
  have l: "calculateSimilarity tieText1 tieText2 63 <
     roundToTwoDecimals (exactSimilarity tieText1 tieText2 63) - 1 / 200" by code_simp
  from r d s have
    "map_option (map_sum id diffEditDistance)
       (calculateDiff frozenClock asciiToLowerCase defaultOptions tieText1 tieText2) =
       Some (Inr 63)"
    "map_option (map_sum id similarity)
       (calculateDiff frozenClock asciiToLowerCase defaultOptions tieText1 tieText2) =
       Some (Inr (roundDouble (6062 / 100)))"
    by (simp_all add: calculateDiff_unfold u p)
  with s e n l show ?thesis by (intro conjI)
qed

text \<open>
  C5, as the code has it. \<open>calculateDiff("abc", "")\<close> with the default options, when
  its timeout does not fire, returns edit distance 3, similarity 0 and three delete
  records, one per character: "a" at position 0, "b" at position 1 and "c" at position
  2. The optimizer merges runs of inserts only; deletes are passed through one by one.
\<close>

theorem deleting_abc_gives_three_records:
  "calculateDiff now toLowerCase defaultOptions abc [] =
     (if timedOut now 5000 3 then Some (Inl (DiffFailed LevenshteinTimeout))
      else Some (Inr \<lparr>diffEditDistance = 3,
                      diffs = [\<lparr>diffPosition = 0, diffType = DeleteRec, content = [0x61],
                                originalContent = None\<rparr>,
                               \<lparr>diffPosition = 1, diffType = DeleteRec, content = [0x62],
                                originalContent = None\<rparr>,
                               \<lparr>diffPosition = 2, diffType = DeleteRec, content = [0x63],
                                originalContent = None\<rparr>],
                      similarity = 0, text1 = abc, text2 = []\<rparr>))"
proof -
  let ?o = "\<lparr>timeout = Some (case diffTimeout defaultOptions of None \<Rightarrow> 5000 | Some t \<Rightarrow> t)\<rparr>"
  have u1: "diffUnits toLowerCase defaultOptions abc = [[0x61], [0x62], [0x63]]"
    and u2: "diffUnits toLowerCase defaultOptions [] = []"
    and p1: "preprocessText abc = abc" and p2: "preprocessText [] = []"
    by (simp_all add: diffUnits_def defaultOptions_def getSplitFunction_def preprocessText_def
          removeBOM_def normalizeLineBreaks_def normalizeWhitespace_def abc_def
          isHighSurrogate_def isLowSurrogate_def)
  have b: "effectiveTimeout ?o = 5000" by (simp add: effectiveTimeout_def defaultOptions_def)
  show ?thesis
  proof (cases "timedOut now 5000 3")
    case True
    have "calculateLevenshtein now ?o [[0x61], [0x62], [0x63]] [] =
        Some (Inl LevenshteinTimeout)"
      by (rule calculateLevenshtein_timeout) (use True b in \<open>simp add: numeral_3_eq_3\<close>)
    with True show ?thesis by (simp add: calculateDiff_unfold u1 u2)
  next
    case False
    have "calculateLevenshtein frozenClock \<lparr>timeout = None\<rparr> [[0x61], [0x62], [0x63]] [] =
        Some (Inr \<lparr>editDistance = 3,
                operations =
                  [\<lparr>op_type = Delete, position = 0, oldChar = Some [0x61], newChar = None\<rparr>,
                   \<lparr>op_type = Delete, position = 1, oldChar = Some [0x62], newChar = None\<rparr>,
                   \<lparr>op_type = Delete, position = 2, oldChar = Some [0x63], newChar = None\<rparr>]\<rparr>)"
      by code_simp
    moreover have "calculateLevenshtein now ?o [[0x61], [0x62], [0x63]] [] =
        calculateLevenshtein frozenClock \<lparr>timeout = None\<rparr> [[0x61], [0x62], [0x63]] []"
      by (rule calculateLevenshtein_clock_free) (use False b in \<open>simp add: numeral_3_eq_3\<close>)
    moreover have "calculateSimilarity abc [] 3 = 0" by code_simp
    ultimately show ?thesis using False
      by (simp add: calculateDiff_unfold u1 u2 p1 p2 convertOperationsToDiffRecords_def
            convertOperation_def orEmpty_def)
  qed
qed

theorem deleting_abc_gives_three_records_witness:
  "calculateDiff frozenClock asciiToLowerCase defaultOptions abc [] =
     Some (Inr \<lparr>diffEditDistance = 3,
                      diffs = [\<lparr>diffPosition = 0, diffType = DeleteRec, content = [0x61],
                                originalContent = None\<rparr>,
                               \<lparr>diffPosition = 1, diffType = DeleteRec, content = [0x62],
                                originalContent = None\<rparr>,
                               \<lparr>diffPosition = 2, diffType = DeleteRec, content = [0x63],
                                originalContent = None\<rparr>],
                      similarity = 0, text1 = abc, text2 = []\<rparr>)"
  using deleting_abc_gives_three_records [of frozenClock asciiToLowerCase]
    frozenClock_never_times_out [of 3]
  by simp

text \<open>
  C5 as stated fails: the result for "abc" against "" is not a single delete record with
  content "abc" at position 0.
\<close>

theorem deleting_abc_single_record_counterexample:
  "\<not> (\<exists>r. calculateDiff frozenClock asciiToLowerCase defaultOptions abc [] = Some (Inr r) \<and>
          diffEditDistance r = 3 \<and>
          (\<exists>d. diffs r = [d] \<and> diffType d = DeleteRec \<and> content d = abc \<and> diffPosition d = 0) \<and>
          similarity r = 0)"
proof -
  have "calculateDiff frozenClock asciiToLowerCase defaultOptions abc [] =
     Some (Inr \<lparr>diffEditDistance = 3,
                      diffs = [\<lparr>diffPosition = 0, diffType = DeleteRec, content = [0x61],
                                originalContent = None\<rparr>,
                               \<lparr>diffPosition = 1, diffType = DeleteRec, content = [0x62],
                                originalContent = None\<rparr>,
                               \<lparr>diffPosition = 2, diffType = DeleteRec, content = [0x63],
                                originalContent = None\<rparr>],
                      similarity = 0, text1 = abc, text2 = []\<rparr>)"
    by code_simp
  then show ?thesis by auto
qed

text \<open>
  C9 as stated fails: options that the validation routine reports as invalid are not
  rejected by \<open>calculateDiff\<close>. With timeout 0 and an unknown precision the diff is
  computed; with timeout -1 it is computed when the first text is empty, and otherwise
  the first row of the matrix loop throws the timeout error.
\<close>

theorem invalid_options_not_rejected_counterexample:
  "\<not> isValid (validateDiffOptions unknownPrecisionOptions) \<and>
   calculateDiff frozenClock asciiToLowerCase unknownPrecisionOptions [0x61] [0x62] =
     Some (Inr \<lparr>diffEditDistance = 1,
                diffs = [\<lparr>diffPosition = 0, diffType = ModifyRec, content = [0x62],
                          originalContent = Some [0x61]\<rparr>],
                similarity = 0, text1 = [0x61], text2 = [0x62]\<rparr>) \<and>
   \<not> isValid (validateDiffOptions negativeTimeoutOptions) \<and>
   calculateDiff frozenClock asciiToLowerCase negativeTimeoutOptions [] [0x61] =
     Some (Inr \<lparr>diffEditDistance = 1,
                diffs = [\<lparr>diffPosition = 0, diffType = AddRec, content = [0x61],
                          originalContent = None\<rparr>],
                similarity = 0, text1 = [], text2 = [0x61]\<rparr>) \<and>
   calculateDiff frozenClock asciiToLowerCase negativeTimeoutOptions [0x61] [0x61] =
     Some (Inl (DiffFailed LevenshteinTimeout))"
  by code_simp

text \<open>
  C9, as the code has it. \<open>validateDiffOptions\<close> returns a verdict: not valid exactly when
  the timeout is present and \<open>\<le> 0\<close>, or the precision is a non-empty string other than
  'character', 'word' and 'line', with one message for each. \<open>calculateDiff\<close> does not
  run it: a timeout of 0 is computed as 5000, an unknown precision as 'character'.
\<close>

theorem validation_is_a_separate_check:
  "isValid (validateDiffOptions options) =
     (\<not> (\<exists>t. diffTimeout options = Some t \<and> t \<le> 0) \<and>
      \<not> (\<exists>s. precision options = Some (OtherPrecision s) \<and> s \<noteq> [])) \<and>
   errors (validateDiffOptions options) =
     (if \<exists>t. diffTimeout options = Some t \<and> t \<le> 0 then [TimeoutMustBePositive] else []) @
     (if \<exists>s. precision options = Some (OtherPrecision s) \<and> s \<noteq> [] then [PrecisionMustBeKnown]
      else []) \<and>
   calculateDiff now toLowerCase (options\<lparr>diffTimeout := Some 0\<rparr>) A B =
     calculateDiff now toLowerCase (options\<lparr>diffTimeout := Some 5000\<rparr>) A B \<and>
   calculateDiff now toLowerCase (options\<lparr>precision := Some (OtherPrecision s)\<rparr>) A B =
     calculateDiff now toLowerCase (options\<lparr>precision := Some ByCharacter\<rparr>) A B"
proof (intro conjI)
  show "isValid (validateDiffOptions options) =
     (\<not> (\<exists>t. diffTimeout options = Some t \<and> t \<le> 0) \<and>
      \<not> (\<exists>s. precision options = Some (OtherPrecision s) \<and> s \<noteq> []))"
    by (auto simp: validateDiffOptions_def Let_def split: option.splits precision.splits)
  show "errors (validateDiffOptions options) =
     (if \<exists>t. diffTimeout options = Some t \<and> t \<le> 0 then [TimeoutMustBePositive] else []) @
     (if \<exists>s. precision options = Some (OtherPrecision s) \<and> s \<noteq> [] then [PrecisionMustBeKnown]
      else [])"
    by (auto simp: validateDiffOptions_def Let_def split: option.splits precision.splits)
  have "calculateLevenshtein now \<lparr>timeout = Some 0\<rparr> u v =
        calculateLevenshtein now \<lparr>timeout = Some 5000\<rparr> u v" for u v
    by (simp add: calculateLevenshtein_def alignUnits_def effectiveTimeout_def)
  then show "calculateDiff now toLowerCase (options\<lparr>diffTimeout := Some 0\<rparr>) A B =
     calculateDiff now toLowerCase (options\<lparr>diffTimeout := Some 5000\<rparr>) A B"
    by (simp add: calculateDiff_unfold diffUnits_def)
  show "calculateDiff now toLowerCase (options\<lparr>precision := Some (OtherPrecision s)\<rparr>) A B =
     calculateDiff now toLowerCase (options\<lparr>precision := Some ByCharacter\<rparr>) A B"
    by (simp add: calculateDiff_unfold diffUnits_def getSplitFunction_def)
qed

theorem validation_is_a_separate_check_witness:
  "\<not> isValid (validateDiffOptions unknownPrecisionOptions) \<and>
   errors (validateDiffOptions unknownPrecisionOptions) =
     [TimeoutMustBePositive, PrecisionMustBeKnown] \<and>
   isValid (validateDiffOptions defaultOptions)"
  using validation_is_a_separate_check [of unknownPrecisionOptions]
    validation_is_a_separate_check [of defaultOptions]
  by (simp add: unknownPrecisionOptions_def defaultOptions_def)

text \<open>
  C4. The optimizer is idempotent on the operation lists it is given: optimizing twice
  gives what optimizing once gives. \<open>optimizeOperations\<close> is not exported, and its one
  call site passes the reversed output of the backtrace, which is in position order.
  The equation holds for every list in position order, so for the list of every
  alignment, and optimizing the operations that \<open>calculateLevenshtein\<close> returns once more
  changes nothing.
\<close>

theorem optimizer_idempotent_on_ordered:
  "(positionOrdered ops \<longrightarrow>
      optimizeOperations (optimizeOperations ops) = optimizeOperations ops) \<and>
   (alignUnits now options str1 str2 = Some (Inr (d, raw)) \<longrightarrow>
      positionOrdered raw \<and>
      optimizeOperations (optimizeOperations raw) = optimizeOperations raw) \<and>
   (calculateLevenshtein now options str1 str2 = Some (Inr r) \<longrightarrow>
      optimizeOperations (operations r) = operations r)"
proof -
  have idem: "optimizeOperations (optimizeOperations xs) = optimizeOperations xs"
    if "positionOrdered xs" for xs
  proof -
    from that have "settled None (optimizeFrom None xs)"
      by (intro optimizeFrom_settled) (simp_all add: positionOrdered_def)
    from settled_fixed [OF this] show ?thesis
      by (simp add: optimizeOperations_optimizeFrom)
  qed
  have given: "positionOrdered ops \<longrightarrow>
      optimizeOperations (optimizeOperations ops) = optimizeOperations ops"
    using idem by blast
  have site: "alignUnits now options str1 str2 = Some (Inr (d, raw)) \<longrightarrow>
      positionOrdered raw \<and>
      optimizeOperations (optimizeOperations raw) = optimizeOperations raw"
    using idem alignUnits_positionOrdered by blast
  have result: "calculateLevenshtein now options str1 str2 = Some (Inr r) \<longrightarrow>
      optimizeOperations (operations r) = operations r"
  proof
    assume "calculateLevenshtein now options str1 str2 = Some (Inr r)"
    then obtain d' xs where a: "alignUnits now options str1 str2 = Some (Inr (d', xs))"
      and r: "operations r = optimizeOperations xs"
      by (auto simp: calculateLevenshtein_def split: option.splits sum.splits)
    from idem [OF alignUnits_positionOrdered [OF a]] r
    show "optimizeOperations (operations r) = operations r" by simp
  qed
  from given site result show ?thesis by (intro conjI)
qed

theorem optimizer_idempotent_on_ordered_witness:
  "alignUnits frozenClock \<lparr>timeout = None\<rparr> [[0x61]] [[0x62], [0x63]] =
     Some (Inr (2,
       [\<lparr>op_type = Insert, position = 0, oldChar = None, newChar = Some [0x62]\<rparr>,
        \<lparr>op_type = Replace, position = 0, oldChar = Some [0x61], newChar = Some [0x63]\<rparr>])) \<and>
   positionOrdered
     [\<lparr>op_type = Insert, position = 0, oldChar = None, newChar = Some [0x62]\<rparr>,
      \<lparr>op_type = Replace, position = 0, oldChar = Some [0x61], newChar = Some [0x63]\<rparr>] \<and>
   optimizeOperations
     [\<lparr>op_type = Insert, position = 0, oldChar = None, newChar = Some [0x62]\<rparr>,
      \<lparr>op_type = Replace, position = 0, oldChar = Some [0x61], newChar = Some [0x63]\<rparr>] =
     [\<lparr>op_type = Insert, position = 0, oldChar = None, newChar = Some [0x62, 0x63]\<rparr>] \<and>
   optimizeOperations
     [\<lparr>op_type = Insert, position = 0, oldChar = None, newChar = Some [0x62, 0x63]\<rparr>] =
     [\<lparr>op_type = Insert, position = 0, oldChar = None, newChar = Some [0x62, 0x63]\<rparr>] \<and>
   calculateLevenshtein frozenClock \<lparr>timeout = None\<rparr> [[0x61]] [[0x62], [0x63]] =
     Some (Inr \<lparr>editDistance = 2,
                operations =
                  [\<lparr>op_type = Insert, position = 0, oldChar = None,
                    newChar = Some [0x62, 0x63]\<rparr>]\<rparr>)"
proof -
  let ?ops = "[\<lparr>op_type = Insert, position = 0, oldChar = None, newChar = Some [0x62 :: 16 word]\<rparr>,
      \<lparr>op_type = Replace, position = 0, oldChar = Some [0x61], newChar = Some [0x63]\<rparr>]"
  let ?r = "\<lparr>editDistance = 2,
             operations = [\<lparr>op_type = Insert, position = 0, oldChar = None,
                            newChar = Some [0x62, 0x63 :: 16 word]\<rparr>]\<rparr>"
  have al: "alignUnits frozenClock \<lparr>timeout = None\<rparr> [[0x61]] [[0x62], [0x63]] =
     Some (Inr (2, ?ops))"
    by code_simp
  have e: "optimizeOperations ?ops =
     [\<lparr>op_type = Insert, position = 0, oldChar = None, newChar = Some [0x62, 0x63]\<rparr>]"
    by code_simp
  have run: "calculateLevenshtein frozenClock \<lparr>timeout = None\<rparr> [[0x61]] [[0x62], [0x63]] =
     Some (Inr ?r)"
    by code_simp
  from optimizer_idempotent_on_ordered
         [of ?ops frozenClock "\<lparr>timeout = None\<rparr>" "[[0x61]]" "[[0x62], [0x63]]" 2 ?ops ?r]
       al e run
  show ?thesis by simp
qed

text \<open>
  C1, as the code has it. Replaying the records of the unoptimized alignment against
  the source units always yields the target. Replaying the diff records that
  \<open>calculateDiff\<close> returns (comparison not ignoring case) against the units of its
  normalized first text yields its normalized second text whenever the alignment has no
  insert immediately followed by a replace at the same position, which is the case in
  which the optimizer folds the replace into the insert.
\<close>

theorem replay_reconstructs_unless_replace_merged:
  "(calculateLevenshteinUnoptimized now levOptions str1 str2 = Some (Inr raw) \<longrightarrow>
      replay (convertOperationsToDiffRecords (operations raw)) str1 = concat str2) \<and>
   (calculateDiff now toLowerCase options A B = Some (Inr r) \<and>
    ignoreCase options \<noteq> Some True \<and>
    \<not> insertThenReplace
        (rawAlignment (getSplitFunction (precision options) (text1 r))
                      (getSplitFunction (precision options) (text2 r))) \<longrightarrow>
      replay (diffs r) (getSplitFunction (precision options) (text1 r)) = text2 r)"
proof (rule conjI; rule impI)
  {
    assume "calculateLevenshteinUnoptimized now levOptions str1 str2 = Some (Inr raw)"
    then obtain d ops where a: "alignUnits now levOptions str1 str2 = Some (Inr (d, ops))"
      and r: "operations raw = ops"
      by (auto simp: calculateLevenshteinUnoptimized_def split: option.splits sum.splits)
    from replay_alignment [OF a] r
    show "replay (convertOperationsToDiffRecords (operations raw)) str1 = concat str2" by simp
  }
  {
    let ?split = "getSplitFunction (precision options)"
    let ?lo = "\<lparr>timeout = Some (case diffTimeout options of None \<Rightarrow> 5000 | Some t \<Rightarrow> t)\<rparr>"
    assume asm: "calculateDiff now toLowerCase options A B = Some (Inr r) \<and>
      ignoreCase options \<noteq> Some True \<and>
      \<not> insertThenReplace (rawAlignment (?split (text1 r)) (?split (text2 r)))"
    then have nocase: "\<not> (case ignoreCase options of None \<Rightarrow> False | Some b \<Rightarrow> b)"
      by (cases "ignoreCase options") auto
    then have u: "diffUnits toLowerCase options x = ?split (preprocessText x)" for x
      by (simp add: diffUnits_def getSplitFunction_default)
    from asm obtain lr where
      lev: "calculateLevenshtein now ?lo (?split (preprocessText A)) (?split (preprocessText B)) =
              Some (Inr lr)"
      and r: "diffs r = convertOperationsToDiffRecords (operations lr)"
        "text1 r = preprocessText A" "text2 r = preprocessText B"
      by (auto simp: calculateDiff_unfold u split: option.splits sum.splits)
    from lev obtain d ops where
      a: "alignUnits now ?lo (?split (preprocessText A)) (?split (preprocessText B)) =
            Some (Inr (d, ops))"
      and o: "operations lr = optimizeOperations ops"
      by (auto simp: calculateLevenshtein_def split: option.splits sum.splits)
    from asm r have "\<not> insertThenReplace ops"
      by (simp add: rawAlignment_alignUnits [OF a])
    from replay_optimized [OF a this] r o
    show "replay (diffs r) (?split (text1 r)) = text2 r"
      by (simp add: concat_getSplitFunction)
  }
qed

theorem replay_reconstructs_unless_replace_merged_witness:
  "calculateDiff frozenClock asciiToLowerCase defaultOptions kitten sitting =
     Some (Inr \<lparr>diffEditDistance = 3,
                diffs = [\<lparr>diffPosition = 0, diffType = ModifyRec, content = [0x73],
                          originalContent = Some [0x6B]\<rparr>,
                         \<lparr>diffPosition = 4, diffType = ModifyRec, content = [0x69],
                          originalContent = Some [0x65]\<rparr>,
                         \<lparr>diffPosition = 6, diffType = AddRec, content = [0x67],
                          originalContent = None\<rparr>],
                similarity = roundDouble (5714 / 100), text1 = kitten, text2 = sitting\<rparr>) \<and>
   \<not> insertThenReplace (rawAlignment (splitIntoChars kitten) (splitIntoChars sitting)) \<and>
   replay [\<lparr>diffPosition = 0, diffType = ModifyRec, content = [0x73],
            originalContent = Some [0x6B]\<rparr>,
           \<lparr>diffPosition = 4, diffType = ModifyRec, content = [0x69],
            originalContent = Some [0x65]\<rparr>,
           \<lparr>diffPosition = 6, diffType = AddRec, content = [0x67],
            originalContent = None\<rparr>]
     (splitIntoChars kitten) = sitting \<and>
   calculateLevenshteinUnoptimized frozenClock \<lparr>timeout = None\<rparr> [[0x61]] [[0x62], [0x63]] =
     Some (Inr \<lparr>editDistance = 2,
                operations =
                  [\<lparr>op_type = Insert, position = 0, oldChar = None, newChar = Some [0x62]\<rparr>,
                   \<lparr>op_type = Replace, position = 0, oldChar = Some [0x61],
                    newChar = Some [0x63]\<rparr>]\<rparr>) \<and>
   replay [\<lparr>diffPosition = 0, diffType = AddRec, content = [0x62], originalContent = None\<rparr>,
           \<lparr>diffPosition = 0, diffType = ModifyRec, content = [0x63],
            originalContent = Some [0x61]\<rparr>]
     [[0x61]] = [0x62, 0x63]"
proof -
  let ?r = "\<lparr>diffEditDistance = 3,
                diffs = [\<lparr>diffPosition = 0, diffType = ModifyRec, content = [0x73],
                          originalContent = Some [0x6B]\<rparr>,
                         \<lparr>diffPosition = 4, diffType = ModifyRec, content = [0x69],
                          originalContent = Some [0x65]\<rparr>,
                         \<lparr>diffPosition = 6, diffType = AddRec, content = [0x67 :: 16 word],
                          originalContent = None\<rparr>],
                similarity = roundDouble (5714 / 100), text1 = kitten, text2 = sitting\<rparr>"
  let ?raw = "\<lparr>editDistance = 2,
                operations =
                  [\<lparr>op_type = Insert, position = 0, oldChar = None, newChar = Some [0x62 :: 16 word]\<rparr>,
                   \<lparr>op_type = Replace, position = 0, oldChar = Some [0x61],
                    newChar = Some [0x63]\<rparr>]\<rparr>"
  have run: "calculateDiff frozenClock asciiToLowerCase defaultOptions kitten sitting =
     Some (Inr ?r)"
    by code_simp
  have raw: "calculateLevenshteinUnoptimized frozenClock \<lparr>timeout = None\<rparr>
      [[0x61]] [[0x62], [0x63]] = Some (Inr ?raw)"
    by code_simp
  have nc: "\<not> insertThenReplace (rawAlignment (splitIntoChars kitten) (splitIntoChars sitting))"
    by code_simp
  have d: "ignoreCase defaultOptions \<noteq> Some True"
    "getSplitFunction (precision defaultOptions) = splitIntoChars"
    by (simp_all add: defaultOptions_def getSplitFunction_def)
  have c: "convertOperationsToDiffRecords (operations ?raw) =
      [\<lparr>diffPosition = 0, diffType = AddRec, content = [0x62], originalContent = None\<rparr>,
       \<lparr>diffPosition = 0, diffType = ModifyRec, content = [0x63],
        originalContent = Some [0x61]\<rparr>]"
    by code_simp
  from replay_reconstructs_unless_replace_merged
         [of frozenClock "\<lparr>timeout = None\<rparr>" "[[0x61]]" "[[0x62], [0x63]]" ?raw
             asciiToLowerCase defaultOptions kitten sitting ?r]
       run raw nc d c
  show ?thesis by simp
qed

text \<open>
  C1 as stated fails: for "a" against "bc" the alignment is an insert of "b" at position
  0 followed by the replacement of "a" by "c" at position 0; the optimizer returns the
  single record add "bc" at position 0, and replaying it over "a" gives "bca".
\<close>

theorem replay_after_merged_replace_counterexample:
  "calculateDiff frozenClock asciiToLowerCase defaultOptions [0x61] [0x62, 0x63] =
     Some (Inr \<lparr>diffEditDistance = 2,
                diffs = [\<lparr>diffPosition = 0, diffType = AddRec, content = [0x62, 0x63],
                          originalContent = None\<rparr>],
                similarity = 0, text1 = [0x61], text2 = [0x62, 0x63]\<rparr>) \<and>
   replay [\<lparr>diffPosition = 0, diffType = AddRec, content = [0x62, 0x63],
            originalContent = None\<rparr>]
     (splitIntoChars [0x61]) = [0x62, 0x63, 0x61] \<and>
   replay [\<lparr>diffPosition = 0, diffType = AddRec, content = [0x62, 0x63],
            originalContent = None\<rparr>]
     (splitIntoChars [0x61]) \<noteq> [0x62, 0x63]"
  by code_simp

end
